theory Spec2Isabelle
  imports Main "HOL-Library.AList" "HOL-Library.Sublist" "HOL-Library.Multiset"
begin

section \<open>Errors\<close>

text \<open>
  Every exception the modelled functions can raise is a value of one datatype.
  The constructors carry the message of the source where it has one:
  \<^item> \<open>Conflict_on_before_all\<close>: \<^verbatim>\<open>RuntimeError('Conflict on before_all.')\<close>
  \<^item> \<open>Already_set_before_all\<close>: \<^verbatim>\<open>RuntimeError('Already set before_all: ...')\<close>
  \<^item> \<open>Conflict_on_after_all\<close>: \<^verbatim>\<open>RuntimeError('Conflict on after_all.')\<close>
  \<^item> \<open>Already_set_after_all\<close>: \<^verbatim>\<open>RuntimeError('Already set after_all: ...')\<close>
  \<^item> \<open>Detect_circle\<close>: \<^verbatim>\<open>RuntimeError('Detect circle.')\<close>
  \<^item> \<open>Raise_NotImplemented\<close>: the statement \<^verbatim>\<open>raise NotImplemented\<close> (a TypeError in Python 3)
  \<^item> \<open>KeyError\<close>: a dictionary read at a key that is not there
  \<^item> \<open>AttributeError\<close>: \<^verbatim>\<open>getattr\<close> of a name the object does not have
  \<^item> \<open>Missing_keys\<close>: \<^verbatim>\<open>RuntimeError('Missing keys')\<close>
  \<^item> \<open>Input_state_not_valid\<close>, \<open>Output_state_not_valid\<close>: the two RuntimeErrors of the pipeline
  \<^item> \<open>External_failure\<close>: an exception raised by a collaborator (state builder, callback)
\<close>

datatype error =
    Conflict_on_before_all
  | Already_set_before_all
  | Conflict_on_after_all
  | Already_set_after_all
  | Detect_circle
  | Raise_NotImplemented
  | KeyError
  | AttributeError
  | Missing_keys
  | Input_state_not_valid
  | Output_state_not_valid
  | External_failure

section \<open>The dependency scheduler: \<^verbatim>\<open>parallel_groups_of_callbacks\<close>\<close>

text \<open>
  Callbacks are compared by identity in the source; the model takes them from any type
  \<open>'c\<close>. The value stored under \<^verbatim>\<open>run_after\<close> is \<^verbatim>\<open>None\<close>, one function, an iterable of
  functions, or anything else (\<open>RA_Other t\<close>, with \<open>t\<close> the truth value of that object).
\<close>

datatype 'c run_after = RA_None | RA_Function 'c | RA_Iterable "'c list" | RA_Other bool

record 'c options =
  before_all :: bool
  after_all :: bool
  run_after :: "'c run_after"

text \<open>Python's truth value of the \<^verbatim>\<open>run_after\<close> entry, as \<^verbatim>\<open>if after_all or run_after\<close> reads it.\<close>

fun truthy_run_after :: "'c run_after \<Rightarrow> bool" where
  "truthy_run_after RA_None = False"
| "truthy_run_after (RA_Function p) = True"
| "truthy_run_after (RA_Iterable ps) = (ps \<noteq> [])"
| "truthy_run_after (RA_Other t) = t"

datatype TopologySearchColor = WHITE | GRAY | BLACK

text \<open>
  A Python \<^verbatim>\<open>set\<close> is kept as the list of its elements in insertion order, without
  repetition; \<open>set_add\<close> is \<^verbatim>\<open>s.add(x)\<close>. The order in which a \<^verbatim>\<open>for\<close> loop visits a set
  is not the insertion order: every function below that iterates over a set takes the
  iteration order as a parameter \<open>it\<close>, a function from the insertion-ordered list to
  the visiting order.
\<close>

definition set_add :: "'a \<Rightarrow> 'a list \<Rightarrow> 'a list" where
  "set_add x xs = (if x \<in> set xs then xs else xs @ [x])"

text \<open>
  The local variables of the first pass. \<open>children\<close> and \<open>parents\<close> are
  \<^verbatim>\<open>defaultdict(set)\<close>: total functions whose default is the empty set. \<open>searched\<close> is a
  \<^verbatim>\<open>dict\<close>, kept as an association list in insertion order.
\<close>

record 'c sched =
  root :: "'c option"
  last_cb :: "'c option"
  children :: "'c \<Rightarrow> 'c list"
  parents :: "'c \<Rightarrow> 'c list"
  searched :: "('c \<times> TopologySearchColor) list"
  search_starts :: "'c list"

definition sched_init :: "'c sched" where
  "sched_init = \<lparr> root = None, last_cb = None, children = (\<lambda>_. []), parents = (\<lambda>_. []),
                  searched = [], search_starts = [] \<rparr>"

text \<open>\<^verbatim>\<open>children[parent].add(callback)\<close>, for every parent of a list.\<close>

fun add_children :: "'c \<Rightarrow> 'c list \<Rightarrow> ('c \<Rightarrow> 'c list) \<Rightarrow> ('c \<Rightarrow> 'c list)" where
  "add_children callback [] ch = ch"
| "add_children callback (p # ps) ch =
     add_children callback ps (ch(p := set_add callback (ch p)))"

text \<open>\<^verbatim>\<open>parents[callback] |= set(parent)\<close>.\<close>

fun set_union :: "'a list \<Rightarrow> 'a list \<Rightarrow> 'a list" where
  "set_union xs [] = xs"
| "set_union xs (y # ys) = set_union (set_add y xs) ys"

text \<open>The body of the loop \<^verbatim>\<open>for callback, options in callback_and_restricted_options\<close>.\<close>

definition process_entry ::
  "('c list \<Rightarrow> 'c list) \<Rightarrow> 'c sched \<Rightarrow> 'c \<times> 'c options \<Rightarrow> error + 'c sched" where
  "process_entry it st entry =
     (let callback = fst entry; opts = snd entry in
      if before_all opts then
        (if after_all opts \<or> truthy_run_after (run_after opts) then Inl Conflict_on_before_all
         else (case root st of
                 None \<Rightarrow> Inr (st\<lparr> root := Some callback,
                                  searched := AList.update callback WHITE (searched st) \<rparr>)
               | Some r \<Rightarrow> Inl Already_set_before_all))
      else if after_all opts then
        (if before_all opts then Inl Conflict_on_after_all
         else (case last_cb st of
                 None \<Rightarrow> Inr (st\<lparr> last_cb := Some callback \<rparr>)
               | Some l \<Rightarrow> Inl Already_set_after_all))
      else
        (case run_after opts of
           RA_Function parent \<Rightarrow>
             Inr (st\<lparr> children := (children st)(parent := set_add callback (children st parent)),
                      parents := (parents st)(callback := set_add parent (parents st callback)),
                      searched := AList.update callback WHITE (searched st) \<rparr>)
         | RA_Iterable ps \<Rightarrow>
             (let ps' = set_union (parents st callback) ps in
              Inr (st\<lparr> children := add_children callback (it ps') (children st),
                       parents := (parents st)(callback := ps'),
                       searched := AList.update callback WHITE (searched st) \<rparr>))
         | RA_None \<Rightarrow>
             Inr (st\<lparr> search_starts := search_starts st @ [callback],
                      searched := AList.update callback WHITE (searched st) \<rparr>)
         | RA_Other t \<Rightarrow> Inl Raise_NotImplemented))"

fun first_pass ::
  "('c list \<Rightarrow> 'c list) \<Rightarrow> 'c sched \<Rightarrow> ('c \<times> 'c options) list \<Rightarrow> error + 'c sched" where
  "first_pass it st [] = Inr st"
| "first_pass it st (entry # rest) =
     (case process_entry it st entry of
        Inl e \<Rightarrow> Inl e
      | Inr st' \<Rightarrow> first_pass it st' rest)"

text \<open>
  \<^verbatim>\<open>if root:\<close> binds every start point under the root and makes the root the only start
  point. A function object is always true in Python, so the test is \<open>root \<noteq> None\<close>.
\<close>

fun bind_children :: "'c \<Rightarrow> 'c list \<Rightarrow> 'c sched \<Rightarrow> 'c sched" where
  "bind_children r [] st = st"
| "bind_children r (child # rest) st =
     bind_children r rest
       (st\<lparr> children := (children st)(r := set_add child (children st r)),
            parents := (parents st)(child := set_add r (parents st child)) \<rparr>)"

definition deal_with_root :: "'c sched \<Rightarrow> 'c sched" where
  "deal_with_root st =
     (case root st of
        None \<Rightarrow> st
      | Some r \<Rightarrow> (bind_children r (search_starts st) st)\<lparr> search_starts := [r] \<rparr>)"

text \<open>
  The nested function \<^verbatim>\<open>DFS(group, callback)\<close>. It mutates \<^verbatim>\<open>searched\<close> and \<^verbatim>\<open>group\<close>; the
  model passes both as a pair and returns the new pair. \<open>DFS_children\<close> is the loop
  \<^verbatim>\<open>for child_callback in children.get(callback, [])\<close>; the parameter \<open>ch\<close> gives the
  children of a callback in the order in which that loop visits them.
\<close>

definition whites :: "('c \<times> TopologySearchColor) list \<Rightarrow> nat" where
  "whites s = length (filter (\<lambda>kv. snd kv = WHITE) s)"

function DFS ::
    "('c \<Rightarrow> 'c list) \<Rightarrow> ('c \<times> TopologySearchColor) list \<times> 'c list \<Rightarrow> 'c
       \<Rightarrow> error + (('c \<times> TopologySearchColor) list \<times> 'c list)"
  and DFS_children ::
    "('c \<Rightarrow> 'c list) \<Rightarrow> ('c \<times> TopologySearchColor) list \<times> 'c list \<Rightarrow> 'c list
       \<Rightarrow> error + (('c \<times> TopologySearchColor) list \<times> 'c list)"
where
  "DFS ch sg callback =
     (case map_of (fst sg) callback of
        None \<Rightarrow> Inl KeyError
      | Some GRAY \<Rightarrow> Inl Detect_circle
      | Some BLACK \<Rightarrow> Inr sg
      | Some WHITE \<Rightarrow>
          (case DFS_children ch (AList.update callback GRAY (fst sg), snd sg) (ch callback) of
             Inl e \<Rightarrow> Inl e
           | Inr sg' \<Rightarrow> Inr (AList.update callback BLACK (fst sg'), snd sg' @ [callback])))"
| "DFS_children ch sg [] = Inr sg"
| "DFS_children ch sg (child_callback # rest) =
     (case DFS ch sg child_callback of
        Inl e \<Rightarrow> Inl e
      | Inr sg' \<Rightarrow> DFS_children ch sg' rest)"
  by pat_completeness auto

lemma whites_update_le: "v \<noteq> WHITE \<Longrightarrow> whites (AList.update k v s) \<le> whites s"
  by (induction s) (auto simp: whites_def)

lemma whites_update_less:
  "map_of s k = Some WHITE \<Longrightarrow> v \<noteq> WHITE \<Longrightarrow> whites (AList.update k v s) < whites s"
  by (induction s)
     (auto simp: whites_def less_Suc_eq_le intro: whites_update_le[unfolded whites_def])

lemma DFS_whites_dom:
  "DFS_DFS_children_dom (Inl (ch, sg, c)) \<Longrightarrow> DFS ch sg c = Inr sg'
     \<Longrightarrow> whites (fst sg') \<le> whites (fst sg)"
  "DFS_DFS_children_dom (Inr (ch, sg, cs)) \<Longrightarrow> DFS_children ch sg cs = Inr sg'
     \<Longrightarrow> whites (fst sg') \<le> whites (fst sg)"
proof (induction ch sg c and ch sg cs arbitrary: sg' and sg' rule: DFS_DFS_children.pinduct)
  case (1 ch sg callback)
  show ?case
  proof (cases "map_of (fst sg) callback")
    case None
    with 1 show ?thesis by (simp add: DFS.psimps)
  next
    case (Some col)
    show ?thesis
    proof (cases col)
      case WHITE
      with Some 1(1,3) obtain sg1 where
        c: "DFS_children ch (AList.update callback GRAY (fst sg), snd sg) (ch callback) = Inr sg1"
        and r: "sg' = (AList.update callback BLACK (fst sg1), snd sg1 @ [callback])"
        by (auto simp: DFS.psimps split: sum.splits)
      from 1(2)[OF Some WHITE c]
      have "whites (fst sg1) \<le> whites (AList.update callback GRAY (fst sg))"
        by simp
      also have "\<dots> \<le> whites (fst sg)" by (rule whites_update_le) simp
      finally show ?thesis using r whites_update_le[of BLACK callback "fst sg1"] by simp
    next
      case GRAY
      with Some 1 show ?thesis by (simp add: DFS.psimps)
    next
      case BLACK
      with Some 1 show ?thesis by (simp add: DFS.psimps)
    qed
  qed
next
  case (2 ch sg)
  then show ?case by (simp add: DFS_children.psimps)
next
  case (3 ch sg child_callback rest)
  from 3(1,4) obtain sg1 where a: "DFS ch sg child_callback = Inr sg1"
    and b: "DFS_children ch sg1 rest = Inr sg'"
    by (auto simp: DFS_children.psimps split: sum.splits)
  from 3(2)[OF a] 3(3)[OF a b] show ?case by simp
qed

text \<open>
  Every call that goes down marks a white callback gray, so the number of white entries
  of \<open>searched\<close> bounds the depth; the loop over the children goes down the list.
\<close>

termination DFS
proof (relation
    "(\<lambda>x. case x of Inl (ch, sg, c) \<Rightarrow> whites (fst sg) | Inr (ch, sg, cs) \<Rightarrow> whites (fst sg))
      <*mlex*> measure (\<lambda>x. case x of Inl (ch, sg, c) \<Rightarrow> 0 | Inr (ch, sg, cs) \<Rightarrow> Suc (length cs))",
    goal_cases)
  case 1
  show ?case by (simp add: wf_mlex)
next
  case (2 ch sg callback)
  then show ?case by (auto intro!: mlex_less whites_update_less)
next
  case (3 ch sg child_callback rest)
  then show ?case by (auto intro!: mlex_leq)
next
  case (4 ch sg child_callback rest sg')
  from DFS_whites_dom(1)[OF 4(2) 4(1)] show ?case by (auto intro!: mlex_leq)
qed

declare DFS.simps [simp del]

text \<open>
  The loop \<^verbatim>\<open>for start_callback in search_starts\<close>: one search per start point, each with a
  fresh \<^verbatim>\<open>group\<close>; a non-empty group is reversed and appended to \<^verbatim>\<open>groups\<close>.
\<close>

fun DFS_starts ::
  "('c \<Rightarrow> 'c list) \<Rightarrow> ('c \<times> TopologySearchColor) list \<Rightarrow> 'c list list \<Rightarrow> 'c list
     \<Rightarrow> error + (('c \<times> TopologySearchColor) list \<times> 'c list list)" where
  "DFS_starts ch s groups [] = Inr (s, groups)"
| "DFS_starts ch s groups (start_callback # rest) =
     (case DFS ch (s, []) start_callback of
        Inl e \<Rightarrow> Inl e
      | Inr sg \<Rightarrow>
          DFS_starts ch (fst sg) (if snd sg \<noteq> [] then groups @ [rev (snd sg)] else groups) rest)"

text \<open>
  The grouping pass. \<open>ready\<close> is the loop \<^verbatim>\<open>for parent in parents[callback]\<close> (the list is
  the parents in visiting order), \<open>scan_group\<close> the loop \<^verbatim>\<open>while group\<close> over one deque,
  \<open>scan_groups\<close> the loop \<^verbatim>\<open>for group in groups\<close>, \<open>mark_completed\<close> the loop that marks
  the members of the new parallel group white.
\<close>

fun ready :: "('c \<times> TopologySearchColor) list \<Rightarrow> 'c list \<Rightarrow> error + bool" where
  "ready s [] = Inr True"
| "ready s (parent # rest) =
     (case map_of s parent of
        None \<Rightarrow> Inl KeyError
      | Some col \<Rightarrow> if col = BLACK then Inr False else ready s rest)"

fun scan_group ::
  "('c \<Rightarrow> 'c list) \<Rightarrow> ('c \<times> TopologySearchColor) list \<Rightarrow> 'c list \<Rightarrow> 'c list
     \<Rightarrow> error + ('c list \<times> 'c list)" where
  "scan_group pa s parallel_group [] = Inr (parallel_group, [])"
| "scan_group pa s parallel_group (callback # rest) =
     (case ready s (pa callback) of
        Inl e \<Rightarrow> Inl e
      | Inr r \<Rightarrow>
          if r then scan_group pa s (parallel_group @ [callback]) rest
          else Inr (parallel_group, callback # rest))"

fun scan_groups ::
  "('c \<Rightarrow> 'c list) \<Rightarrow> ('c \<times> TopologySearchColor) list \<Rightarrow> 'c list \<Rightarrow> 'c list list
     \<Rightarrow> error + ('c list \<times> 'c list list)" where
  "scan_groups pa s parallel_group [] = Inr (parallel_group, [])"
| "scan_groups pa s parallel_group (grp # rest) =
     (case scan_group pa s parallel_group grp of
        Inl e \<Rightarrow> Inl e
      | Inr pg \<Rightarrow>
          (case scan_groups pa s (fst pg) rest of
             Inl e \<Rightarrow> Inl e
           | Inr pgs \<Rightarrow> Inr (fst pgs, snd pg # snd pgs)))"

fun mark_completed ::
  "'c list \<Rightarrow> ('c \<times> TopologySearchColor) list \<Rightarrow> ('c \<times> TopologySearchColor) list" where
  "mark_completed [] s = s"
| "mark_completed (callback # rest) s = mark_completed rest (AList.update callback WHITE s)"

text \<open>
  The loop \<^verbatim>\<open>while groups\<close>. Nothing in the source bounds it: a round in which no callback
  is ready leaves \<^verbatim>\<open>groups\<close> as it was and the loop goes on for ever. The result \<open>None\<close>
  stands for that.
\<close>

partial_function (option) grouping ::
  "('c \<Rightarrow> 'c list) \<Rightarrow> ('c \<times> TopologySearchColor) list \<Rightarrow> 'c list list \<Rightarrow> 'c list list
     \<Rightarrow> (error + 'c list list) option" where
  "grouping pa s groups parallel_groups =
     (if groups = [] then Some (Inr parallel_groups)
      else (case scan_groups pa s [] groups of
              Inl e \<Rightarrow> Some (Inl e)
            | Inr pg \<Rightarrow>
                grouping pa (mark_completed (fst pg) s) (filter (\<lambda>g. g \<noteq> []) (snd pg))
                  (parallel_groups @ [fst pg])))"

declare grouping.simps [code]

text \<open>
  The whole function. \<open>None\<close>: the call does not return; \<open>Some (Inl e)\<close>: it raises;
  \<open>Some (Inr gs)\<close>: it returns the parallel groups \<open>gs\<close>.
\<close>

definition parallel_groups_of_callbacks ::
  "('c list \<Rightarrow> 'c list) \<Rightarrow> ('c \<times> 'c options) list \<Rightarrow> (error + 'c list list) option" where
  "parallel_groups_of_callbacks it callback_and_restricted_options =
     (case first_pass it sched_init callback_and_restricted_options of
        Inl e \<Rightarrow> Some (Inl e)
      | Inr st0 \<Rightarrow>
          (let st = deal_with_root st0 in
           case DFS_starts (\<lambda>c. it (children st c)) (searched st) [] (search_starts st) of
             Inl e \<Rightarrow> Some (Inl e)
           | Inr sg \<Rightarrow>
               (case grouping (\<lambda>c. it (parents st c)) (fst sg) (snd sg) [] of
                  None \<Rightarrow> None
                | Some (Inl e) \<Rightarrow> Some (Inl e)
                | Some (Inr parallel_groups) \<Rightarrow>
                    Some (Inr (case last_cb st of
                                 None \<Rightarrow> parallel_groups
                               | Some l \<Rightarrow> parallel_groups @ [[l]])))))"

section \<open>The tree-state merger: \<^verbatim>\<open>_merge_output_of_callbacks\<close>\<close>

text \<open>
  The values callbacks return: \<^verbatim>\<open>None\<close>, booleans, integers, strings, lists and
  dictionaries with string keys (in insertion order). \<open>truthy\<close> is Python's truth value.
\<close>

datatype pyval =
    PNone
  | PBool bool
  | PInt int
  | PStr string
  | PList "pyval list"
  | PDict "(string \<times> pyval) list"

fun truthy :: "pyval \<Rightarrow> bool" where
  "truthy PNone = False"
| "truthy (PBool b) = b"
| "truthy (PInt i) = (i \<noteq> 0)"
| "truthy (PStr s) = (s \<noteq> [])"
| "truthy (PList xs) = (xs \<noteq> [])"
| "truthy (PDict kvs) = (kvs \<noteq> [])"

text \<open>
  Modelled from the spec: the class \<^verbatim>\<open>TreeState\<close> of \<^verbatim>\<open>restpf.utils.helper_classes\<close>, which
  is not among the sources. The spec (section 3) describes it as a mutable tree keyed by
  path, each node holding an optional value and named children, where "touch" on a path
  creates intermediate nodes on demand. The merger reads \<^verbatim>\<open>root_gap\<close> (absent, or a node
  with a \<^verbatim>\<open>value\<close>), \<^verbatim>\<open>children\<close> (pairs of a name and a child with \<^verbatim>\<open>value\<close> and \<^verbatim>\<open>next\<close>)
  and the truth value of a tree, false for a tree without children (the source's comment
  there: "leaf node"). A node that was only touched holds \<^verbatim>\<open>None\<close>.
\<close>

datatype tree_state =
  TreeState (root_gap: "pyval option") (children_of: "(string \<times> pyval \<times> tree_state) list")

definition TreeState_empty :: tree_state where
  "TreeState_empty = TreeState None []"

definition tree_true :: "tree_state \<Rightarrow> bool" where
  "tree_true t = (children_of t \<noteq> [])"

text \<open>\<^verbatim>\<open>tree_state.touch(path).value = ret\<close>: the path is a list of names, the root's is empty.\<close>

fun touch_assign :: "string list \<Rightarrow> pyval \<Rightarrow> tree_state \<Rightarrow> tree_state"
  and touch_children ::
    "string \<Rightarrow> string list \<Rightarrow> pyval \<Rightarrow> (string \<times> pyval \<times> tree_state) list
       \<Rightarrow> (string \<times> pyval \<times> tree_state) list" where
  "touch_assign [] v (TreeState rg cs) = TreeState (Some v) cs"
| "touch_assign (n # ns) v (TreeState rg cs) = TreeState rg (touch_children n ns v cs)"
| "touch_children n ns v [] =
     [(n, if ns = [] then (v, TreeState_empty)
          else (PNone, touch_assign ns v TreeState_empty))]"
| "touch_children n ns v ((m, w, t) # rest) =
     (if m = n then (m, if ns = [] then (v, t) else (w, touch_assign ns v t)) # rest
      else (m, w, t) # touch_children n ns v rest)"

text \<open>\<^verbatim>\<open>ret.get(name)\<close> and \<^verbatim>\<open>ret[name] = v\<close> on a value that is known to be a dictionary.\<close>

fun dict_get :: "pyval \<Rightarrow> string \<Rightarrow> pyval" where
  "dict_get (PDict kvs) name = (case map_of kvs name of None \<Rightarrow> PNone | Some v \<Rightarrow> v)"
| "dict_get other name = PNone"

fun dict_set :: "pyval \<Rightarrow> string \<Rightarrow> pyval \<Rightarrow> pyval" where
  "dict_set (PDict kvs) name v = PDict (AList.update name v kvs)"
| "dict_set other name v = other"

fun is_dict :: "pyval \<Rightarrow> bool" where
  "is_dict (PDict kvs) = True"
| "is_dict other = False"

text \<open>
  The nested function \<^verbatim>\<open>helper(ret, child_value, tree_state)\<close>; \<open>helper_children\<close> is its
  loop \<^verbatim>\<open>for name, child in tree_state.children\<close>, which assigns into \<^verbatim>\<open>ret\<close>. The source
  updates the dictionary in place; the model returns the updated value.
\<close>

fun helper :: "pyval \<Rightarrow> pyval \<Rightarrow> tree_state \<Rightarrow> pyval"
  and helper_children :: "pyval \<Rightarrow> (string \<times> pyval \<times> tree_state) list \<Rightarrow> pyval" where
  "helper ret child_value (TreeState rg cs) =
     (if \<not> tree_true (TreeState rg cs) then (if truthy child_value then child_value else ret)
      else
        (let ret1 = (if truthy ret then ret else child_value);
             ret2 = (if \<not> is_dict ret1 then PDict [] else ret1)
         in helper_children ret2 cs))"
| "helper_children ret [] = ret"
| "helper_children ret ((name, v, nxt) # rest) =
     helper_children (dict_set ret name (helper (dict_get ret name) v nxt)) rest"

definition merge_output_of_callbacks :: "tree_state \<Rightarrow> pyval" where
  "merge_output_of_callbacks output_of_callbacks =
     (let ret = (case root_gap output_of_callbacks of Some v \<Rightarrow> v | None \<Rightarrow> PDict [])
      in helper ret PNone output_of_callbacks)"

text \<open>
  The loop of \<^verbatim>\<open>_invoke_callbacks\<close> that fills a fresh \<^verbatim>\<open>TreeState\<close> from the paths and the
  results of one collection, followed by the merge.
\<close>

fun fill_tree :: "(string list \<times> pyval) list \<Rightarrow> tree_state \<Rightarrow> tree_state" where
  "fill_tree [] t = t"
| "fill_tree ((path, ret) # rest) t = fill_tree rest (touch_assign path ret t)"

definition merge_paths :: "(string list \<times> pyval) list \<Rightarrow> pyval" where
  "merge_paths path_rets = merge_output_of_callbacks (fill_tree path_rets TreeState_empty)"

section \<open>Keyword filtering: \<^verbatim>\<open>async_call\<close>\<close>

text \<open>
  A function object, as \<^verbatim>\<open>async_call\<close> sees it: the parameters of its signature in order,
  each with the flag "has a default value", and what a call with positional and keyword
  arguments returns or raises. Keyword arguments are a map from names to values.
\<close>

record ('v, 'r) func =
  params :: "(string \<times> bool) list"
  call :: "'v list \<Rightarrow> (string \<rightharpoonup> 'v) \<Rightarrow> error + 'r"

text \<open>
  \<^verbatim>\<open>_extract_kwargs_subset(func, kwargs)\<close>. The cache of the source stores the two sets
  computed from the signature under the function object; it changes no result.
\<close>

definition extract_kwargs_subset ::
  "('v, 'r) func \<Rightarrow> (string \<rightharpoonup> 'v) \<Rightarrow> error + (string \<rightharpoonup> 'v)" where
  "extract_kwargs_subset f kwargs =
     (let params_all = set (map fst (params f));
          params_without_default = set (map fst (filter (\<lambda>p. \<not> snd p) (params f)));
          kwargs_keys = dom kwargs
      in if \<not> params_without_default \<subseteq> kwargs_keys then Inl Missing_keys
         else Inr (kwargs |` (params_all \<inter> kwargs_keys)))"

text \<open>
  \<^verbatim>\<open>async_call(func, *args, **kwargs)\<close>. The second component of the result lists the calls
  made to the target, each with the arguments the target received: none when the
  function raises before the call, one otherwise.
\<close>

definition async_call ::
  "('v, 'r) func \<Rightarrow> 'v list \<Rightarrow> (string \<rightharpoonup> 'v)
     \<Rightarrow> (error + 'r) \<times> ('v list \<times> (string \<rightharpoonup> 'v)) list" where
  "async_call f args kwargs =
     (if args = [] then
        (case extract_kwargs_subset f kwargs of
           Inl e \<Rightarrow> (Inl e, [])
         | Inr kwargs_subset \<Rightarrow> (call f [] kwargs_subset, [([], kwargs_subset)]))
      else (call f args kwargs, [(args, kwargs)]))"

section \<open>The schema tree selector: \<^verbatim>\<open>ContextRule._select_callbacks\<close>\<close>

text \<open>
  A schema node has a path (\<^verbatim>\<open>bh_path\<close>) and named children in declaration order
  (\<^verbatim>\<open>bh_named_children\<close>).
\<close>

datatype attr = Attr (bh_path: "string list") (bh_named_children: "(string \<times> attr) list")

text \<open>
  Modelled from the spec: the state classes of \<^verbatim>\<open>restpf.resource.attribute_states\<close>, which
  are not among the sources. A state is \<^verbatim>\<open>None\<close> or an object; the selector reads the truth
  value of the object (\<open>state_true\<close>) and its attributes by name, each again a state or
  \<^verbatim>\<open>None\<close>. A \<open>state option\<close> is what a variable \<^verbatim>\<open>state\<close> of the source holds.
\<close>

datatype state = State (state_true: bool) (state_attrs: "(string \<times> state option) list")

fun present :: "state option \<Rightarrow> bool" where
  "present None = False"
| "present (Some st) = state_true st"

definition getattr_state :: "state \<Rightarrow> string \<Rightarrow> error + state option" where
  "getattr_state st name =
     (case map_of (state_attrs st) name of None \<Rightarrow> Inl AttributeError | Some v \<Rightarrow> Inr v)"

text \<open>
  The loop \<^verbatim>\<open>for name, child_attr in attr.bh_named_children.items()\<close>: the pairs it
  appends to the queue.
\<close>

fun enqueue_children ::
  "state option \<Rightarrow> (string \<times> attr) list \<Rightarrow> error + (attr \<times> state option) list" where
  "enqueue_children state [] = Inr []"
| "enqueue_children state ((name, child_attr) # rest) =
     (case (case state of
              None \<Rightarrow> Inr None
            | Some st \<Rightarrow> if state_true st then getattr_state st name else Inr None) of
        Inl e \<Rightarrow> Inl e
      | Inr child_state \<Rightarrow>
          (case enqueue_children state rest of
             Inl e \<Rightarrow> Inl e
           | Inr items \<Rightarrow> Inr ((child_attr, child_state) # items)))"

text \<open>
  The loop \<^verbatim>\<open>while queue\<close>. \<open>query\<close> is the registry lookup for the rule's HTTP method: it
  gives the callback registered at a path (\<open>None\<close> when there is none) and its options.
\<close>

definition queue_size :: "(attr \<times> state option) list \<Rightarrow> nat" where
  "queue_size queue = sum_list (map (\<lambda>p. size (fst p)) queue)"

function select_loop ::
  "(string list \<Rightarrow> 'c option \<times> 'c options) \<Rightarrow> state option \<Rightarrow> (attr \<times> state option) list
     \<Rightarrow> ('c \<times> attr \<times> state option) list \<Rightarrow> error + ('c \<times> attr \<times> state option) list" where
  "select_loop query root_state [] ret = Inr ret"
| "select_loop query root_state ((attr, state) # queue) ret =
     (case enqueue_children state (bh_named_children attr) of
        Inl e \<Rightarrow> Inl e
      | Inr items \<Rightarrow>
          select_loop query root_state (queue @ items)
            (case fst (query (bh_path attr)) of
               None \<Rightarrow> ret
             | Some callback \<Rightarrow>
                 if present state \<or> root_state = None then ret @ [(callback, attr, state)]
                 else ret))"
  by pat_completeness auto

lemma enqueue_children_size:
  "enqueue_children state cs = Inr items
     \<Longrightarrow> queue_size items = sum_list (map (\<lambda>p. size (snd p)) cs)"
  by (induction cs arbitrary: items)
     (auto simp: queue_size_def split: sum.splits option.splits if_splits)

lemma attr_children_size:
  "sum_list (map (\<lambda>p. size (snd p)) (bh_named_children a)) < size a"
proof (cases a)
  case (Attr path cs)
  have "sum_list (map (\<lambda>p. size (snd p)) cs) \<le> size_list (size_prod (\<lambda>_. 0) size) cs"
    by (induction cs) auto
  with Attr show ?thesis by simp
qed

termination select_loop
proof (relation "measure (\<lambda>(query, root_state, queue, ret). queue_size queue)", goal_cases)
  case 1
  show ?case by simp
next
  case (2 query root_state attr state queue ret items)
  from enqueue_children_size[OF 2] attr_children_size[of attr]
  show ?case by (simp add: queue_size_def)
qed

text \<open>\<^verbatim>\<open>ContextRule._select_callbacks(query, root_attr, root_state)\<close>.\<close>

definition select_callbacks_of ::
  "(string list \<Rightarrow> 'c option \<times> 'c options) \<Rightarrow> attr \<Rightarrow> state option
     \<Rightarrow> error + ('c \<times> attr \<times> state option) list" where
  "select_callbacks_of query root_attr root_state =
     select_loop query root_state [(root_attr, root_state)] []"

section \<open>The pipeline: \<^verbatim>\<open>ContextRule\<close> and \<^verbatim>\<open>PipelineBase\<close>\<close>

text \<open>
  Modelled from the spec: the resource class, which is not among the sources.
  \<^verbatim>\<open>select_callbacks\<close> reads, for a key, \<^verbatim>\<open>resource.<key>\<close> (only whether it is \<^verbatim>\<open>None\<close>) and
  \<^verbatim>\<open>resource.<key>_obj\<close>, a collection with the registry lookup
  \<^verbatim>\<open>get_registered_callback_and_options\<close> and the schema root \<^verbatim>\<open>attr_obj\<close>. A field of the
  record is \<open>None\<close> when \<^verbatim>\<open>resource.<key>\<close> is \<^verbatim>\<open>None\<close> and holds the collection otherwise.
  The source never reads a resource-identifier collection; the field \<open>resource_id_obj\<close>
  is there for the spec's sentence about three collections (section 4.4).
\<close>

record 'c attr_collection =
  get_registered_callback_and_options :: "string list \<Rightarrow> 'c option \<times> 'c options"
  attr_obj :: attr

record 'c resource =
  attributes_obj :: "'c attr_collection option"
  relationships_obj :: "'c attr_collection option"
  resource_id_obj :: "'c attr_collection option"

text \<open>The named tuple \<^verbatim>\<open>ResourceState\<close>.\<close>

record ResourceState =
  attributes :: "state option"
  relationships :: "state option"
  resource_id :: "state option"

definition COLLECTION_NAMES :: "string list" where
  "COLLECTION_NAMES = [''attributes'', ''relationships'', ''resource_id'']"

text \<open>
  \<^verbatim>\<open>getattr(resource, f'{key}_obj')\<close> and \<^verbatim>\<open>getattr(state, key)\<close> for the two keys of the loop in
  \<^verbatim>\<open>select_callbacks\<close>.
\<close>

definition resource_key :: "'c resource \<Rightarrow> string \<Rightarrow> 'c attr_collection option" where
  "resource_key r key =
     (if key = ''attributes'' then attributes_obj r
      else if key = ''relationships'' then relationships_obj r
      else None)"

definition state_key :: "ResourceState \<Rightarrow> string \<Rightarrow> state option" where
  "state_key st key =
     (if key = ''attributes'' then attributes st
      else if key = ''relationships'' then relationships st
      else resource_id st)"

text \<open>
  \<^verbatim>\<open>ContextRule.select_callbacks(resource, state)\<close>: the loop over the two keys, then the
  loop that gives every missing collection name the empty list. The dictionary \<^verbatim>\<open>ret\<close> is
  an association list in insertion order.
\<close>

fun select_keys ::
  "'c resource \<Rightarrow> ResourceState \<Rightarrow> string list
     \<Rightarrow> (string \<times> ('c \<times> attr \<times> state option) list) list
     \<Rightarrow> error + (string \<times> ('c \<times> attr \<times> state option) list) list" where
  "select_keys r st [] ret = Inr ret"
| "select_keys r st (key # keys) ret =
     (case resource_key r key of
        None \<Rightarrow> select_keys r st keys ret
      | Some attr_collection \<Rightarrow>
          (case select_callbacks_of (get_registered_callback_and_options attr_collection)
                  (attr_obj attr_collection) (state_key st key) of
             Inl e \<Rightarrow> Inl e
           | Inr selected \<Rightarrow> select_keys r st keys (AList.update key selected ret)))"

fun fill_missing :: "string list \<Rightarrow> (string \<times> 'a list) list \<Rightarrow> (string \<times> 'a list) list" where
  "fill_missing [] ret = ret"
| "fill_missing (name # names) ret =
     fill_missing names (if map_of ret name = None then AList.update name [] ret else ret)"

definition select_callbacks ::
  "'c resource \<Rightarrow> ResourceState \<Rightarrow> error + (string \<times> ('c \<times> attr \<times> state option) list) list"
  where
  "select_callbacks r st =
     (case select_keys r st [''attributes'', ''relationships''] [] of
        Inl e \<Rightarrow> Inl e
      | Inr ret \<Rightarrow> Inr (fill_missing COLLECTION_NAMES ret))"

text \<open>
  The values of a callback's keyword context: a schema node, a state, or a plain value.
\<close>

datatype ctxval = CAttr attr | CState "state option" | CVal pyval

text \<open>
  A context rule. \<open>state_validate\<close> is the method \<^verbatim>\<open>validate(context)\<close> of a state for the
  rule's HTTP method (the state classes are not among the sources). \<open>raw_resource_id\<close> is
  \<open>None\<close> for a plain \<^verbatim>\<open>ContextRule\<close> and the stored identifier for a
  \<^verbatim>\<open>ContextRuleWithResourceID\<close>.
\<close>

record context_rule =
  state_validate :: "state \<Rightarrow> bool"
  raw_resource_id :: "pyval option"

text \<open>
  \<^verbatim>\<open>ContextRule._default_validator\<close>: every collection of the state that is true must
  validate; \<^verbatim>\<open>validate_input_state\<close> and \<^verbatim>\<open>validate_output_state\<close> both return it.
\<close>

definition default_validator :: "context_rule \<Rightarrow> ResourceState \<Rightarrow> bool" where
  "default_validator cr st =
     list_all (\<lambda>x. case x of None \<Rightarrow> True | Some x' \<Rightarrow> state_validate cr x')
       (filter present [resource_id st, attributes st, relationships st])"

definition validate_input_state :: "context_rule \<Rightarrow> ResourceState \<Rightarrow> bool" where
  "validate_input_state cr st = default_validator cr st"

definition validate_output_state :: "context_rule \<Rightarrow> ResourceState \<Rightarrow> bool" where
  "validate_output_state cr st = default_validator cr st"

text \<open>\<^verbatim>\<open>callback_kwargs(attr, state)\<close> of both context rule classes.\<close>

definition callback_kwargs :: "context_rule \<Rightarrow> attr \<Rightarrow> state option \<Rightarrow> (string \<rightharpoonup> ctxval)" where
  "callback_kwargs cr a st =
     (case raw_resource_id cr of
        None \<Rightarrow> [''attr'' \<mapsto> CAttr a, ''state'' \<mapsto> CState st]
      | Some rid \<Rightarrow> [''attr'' \<mapsto> CAttr a, ''state'' \<mapsto> CState st, ''resource_id'' \<mapsto> CVal rid])"

text \<open>
  What a pipeline is built from. Callbacks are references of type \<open>'c\<close>; \<open>impl\<close> gives the
  function object behind a reference. The state builder and the representation
  generator are collaborators outside the sources: each is a function that returns or
  raises. \<open>rep_generator\<close> is \<open>None\<close> when \<^verbatim>\<open>self.rep_generator\<close> is false.
\<close>

record 'c pipeline =
  resource :: "'c resource"
  context_rule :: context_rule
  impl :: "'c \<Rightarrow> (ctxval, pyval) func"
  build_input_state :: "'c resource \<Rightarrow> error + ResourceState"
  build_output_state :: "'c resource \<Rightarrow> (string \<times> pyval) list \<Rightarrow> error + ResourceState"
  rep_generator :: "('c resource \<Rightarrow> ResourceState \<Rightarrow> error + pyval) option"

text \<open>
  What a run does that can be observed from outside, in order: the calls to the
  collaborators and to the selection, and every \<^verbatim>\<open>await\<close> of a gather, with the calls
  that reached their target callback (the callback and the keyword arguments it
  received) in the order in which the gather was given them.
\<close>

datatype 'c event =
    Build_input_state
  | Validate_input_state
  | Select_callbacks
  | Gather "('c \<times> (string \<rightharpoonup> ctxval)) list"
  | Build_output_state
  | Validate_output_state
  | Generate_representation

text \<open>
  The first loop of \<^verbatim>\<open>_invoke_callbacks\<close> builds, for every collection, the coroutines
  \<^verbatim>\<open>async_call(callback, **kwargs)\<close> and the paths; no coroutine runs before the gather is
  awaited. \<open>pending\<close> is the list of one collection: callback, keyword context, path.
\<close>

definition pending ::
  "context_rule \<Rightarrow> ('c \<times> attr \<times> state option) list \<Rightarrow> ('c \<times> (string \<rightharpoonup> ctxval) \<times> string list) list"
  where
  "pending cr callback_and_options =
     map (\<lambda>(callback, a, st). (callback, callback_kwargs cr a st, bh_path a)) callback_and_options"

text \<open>
  \<^verbatim>\<open>await joined_callbacks\<close>: one gather of the gathers of all collections. Every coroutine
  is started, in the order of the lists; the results come back in the same order. When
  coroutines raise, the await raises the exception of the first one. \<open>run_pending\<close> runs
  the coroutines of one list and returns their results with the calls that reached a
  target.
\<close>

fun run_pending ::
  "('c \<Rightarrow> (ctxval, pyval) func) \<Rightarrow> ('c \<times> (string \<rightharpoonup> ctxval) \<times> string list) list
     \<Rightarrow> (error + pyval) list \<times> ('c \<times> (string \<rightharpoonup> ctxval)) list" where
  "run_pending im [] = ([], [])"
| "run_pending im ((callback, kwargs, path) # rest) =
     (let (r, calls) = async_call (im callback) [] kwargs;
          (rs, calls') = run_pending im rest
      in (r # rs, map (\<lambda>(args, kw). (callback, kw)) calls @ calls'))"

fun first_error :: "(error + 'a) list \<Rightarrow> error option" where
  "first_error [] = None"
| "first_error (Inl e # rest) = Some e"
| "first_error (Inr v # rest) = first_error rest"

fun results_of :: "(error + 'a) list \<Rightarrow> 'a list" where
  "results_of [] = []"
| "results_of (Inl e # rest) = results_of rest"
| "results_of (Inr v # rest) = v # results_of rest"

text \<open>
  \<^verbatim>\<open>PipelineBase._invoke_callbacks\<close>: selection, the coroutines of every collection, one
  await of the gather of gathers, then one merge per collection.
\<close>

definition invoke_callbacks ::
  "'c pipeline \<Rightarrow> ResourceState \<Rightarrow> (error + (string \<times> pyval) list) \<times> 'c event list" where
  "invoke_callbacks p input_state =
     (case select_callbacks (resource p) input_state of
        Inl e \<Rightarrow> (Inl e, [Select_callbacks])
      | Inr name2selected \<Rightarrow>
          (let async_nested = map (\<lambda>(name, sel). (name, pending (context_rule p) sel)) name2selected;
               ran = map (\<lambda>(name, pend). (name, pend, run_pending (impl p) pend)) async_nested;
               calls = concat (map (\<lambda>(name, pend, rets, cs). cs) ran);
               log = [Select_callbacks, Gather calls]
           in case first_error (concat (map (\<lambda>(name, pend, rets, cs). rets) ran)) of
                Some e \<Rightarrow> (Inl e, log)
              | None \<Rightarrow>
                  (Inr (map (\<lambda>(name, pend, rets, cs).
                              (name, merge_paths (zip (map (\<lambda>(c, kw, path). path) pend) (results_of rets))))
                          ran),
                   log)))"

text \<open>What a finished run leaves in the attributes of the pipeline object.\<close>

record pipeline_result =
  input_state :: ResourceState
  merged_output_of_callbacks :: "(string \<times> pyval) list"
  output_state :: ResourceState
  representation :: "pyval option"

text \<open>
  \<^verbatim>\<open>PipelineBase.run\<close>, with \<^verbatim>\<open>_build_input_state\<close>, \<^verbatim>\<open>_invoke_callbacks\<close>,
  \<^verbatim>\<open>_build_output_state\<close> and \<^verbatim>\<open>_generate_representation\<close> in sequence; an exception ends the
  run where it is raised.
\<close>

definition run :: "'c pipeline \<Rightarrow> (error + pipeline_result) \<times> 'c event list" where
  "run p =
     (case build_input_state p (resource p) of
        Inl e \<Rightarrow> (Inl e, [Build_input_state])
      | Inr ist \<Rightarrow>
          if \<not> validate_input_state (context_rule p) ist
          then (Inl Input_state_not_valid, [Build_input_state, Validate_input_state])
          else
            (case invoke_callbacks p ist of
               (Inl e, log) \<Rightarrow> (Inl e, [Build_input_state, Validate_input_state] @ log)
             | (Inr merged, log) \<Rightarrow>
                 (let log1 = [Build_input_state, Validate_input_state] @ log @ [Build_output_state] in
                  case build_output_state p (resource p) merged of
                    Inl e \<Rightarrow> (Inl e, log1)
                  | Inr ost \<Rightarrow>
                      if \<not> validate_output_state (context_rule p) ost
                      then (Inl Output_state_not_valid, log1 @ [Validate_output_state])
                      else
                        (case rep_generator p of
                           None \<Rightarrow>
                             (Inr \<lparr> input_state = ist, merged_output_of_callbacks = merged,
                                    output_state = ost, representation = None \<rparr>,
                              log1 @ [Validate_output_state])
                         | Some generate_representation \<Rightarrow>
                             (case generate_representation (resource p) ost of
                                Inl e \<Rightarrow>
                                  (Inl e, log1 @ [Validate_output_state, Generate_representation])
                              | Inr rep \<Rightarrow>
                                  (Inr \<lparr> input_state = ist, merged_output_of_callbacks = merged,
                                         output_state = ost, representation = Some rep \<rparr>,
                                   log1 @ [Validate_output_state, Generate_representation]))))))"

section \<open>Notions of the specification\<close>

text \<open>
  The definitions of this section are not translations of source functions. They say, in
  the words of the specification, what the claims compare the code with.
\<close>

text \<open>
  Section 3 of the specification, ordering constraints. The parents that an entry
  declares with \<^verbatim>\<open>run_after\<close>; the edges "parent before child" that the entries of an input
  declare; and what makes an input a valid constraint set: every callback is listed once;
  at most one is declared \<^verbatim>\<open>before_all\<close> (RunFirst) and at most one \<^verbatim>\<open>after_all\<close> (RunLast);
  an entry declares one kind of constraint only (\<open>entry_ok\<close>: \<^verbatim>\<open>before_all\<close> or \<^verbatim>\<open>after_all\<close>
  come alone, and a \<^verbatim>\<open>run_after\<close> is \<^verbatim>\<open>None\<close>, one function or a non-empty iterable of
  functions); and every declared parent is a callback of the input that is not the
  \<^verbatim>\<open>after_all\<close> one. \<open>is_node\<close> holds of the options of an ordinary callback, declared
  neither \<^verbatim>\<open>before_all\<close> nor \<^verbatim>\<open>after_all\<close>.
\<close>

fun declared_parents :: "'c run_after \<Rightarrow> 'c list" where
  "declared_parents RA_None = []"
| "declared_parents (RA_Function p) = [p]"
| "declared_parents (RA_Iterable ps) = ps"
| "declared_parents (RA_Other t) = []"

definition is_node :: "'c options \<Rightarrow> bool" where
  "is_node opts \<longleftrightarrow> \<not> before_all opts \<and> \<not> after_all opts"

definition entry_ok :: "'c options \<Rightarrow> bool" where
  "entry_ok opts \<longleftrightarrow>
     (before_all opts \<or> after_all opts \<longrightarrow>
        \<not> (before_all opts \<and> after_all opts) \<and> run_after opts = RA_None)
     \<and> (\<forall>t. run_after opts \<noteq> RA_Other t) \<and> run_after opts \<noteq> RA_Iterable []"

definition run_after_edges :: "('c \<times> 'c options) list \<Rightarrow> ('c \<times> 'c) set" where
  "run_after_edges input =
     {(p, c). \<exists>opts. (c, opts) \<in> set input \<and> p \<in> set (declared_parents (run_after opts))}"

definition valid_constraints :: "('c \<times> 'c options) list \<Rightarrow> bool" where
  "valid_constraints input \<longleftrightarrow>
     distinct (map fst input)
     \<and> length (filter (\<lambda>e. before_all (snd e)) input) \<le> 1
     \<and> length (filter (\<lambda>e. after_all (snd e)) input) \<le> 1
     \<and> (\<forall>e \<in> set input. entry_ok (snd e))
     \<and> (\<forall>e \<in> set input. \<forall>p \<in> set (declared_parents (run_after (snd e))).
           \<exists>opts'. (p, opts') \<in> set input \<and> \<not> after_all opts')"

text \<open>A valid, acyclic constraint set with a RunFirst and a RunLast callback.\<close>

definition ex_constraints :: "(nat \<times> nat options) list" where
  "ex_constraints =
     [(0, \<lparr> before_all = False, after_all = False, run_after = RA_None \<rparr>),
      (1, \<lparr> before_all = False, after_all = False, run_after = RA_None \<rparr>),
      (2, \<lparr> before_all = False, after_all = False, run_after = RA_Iterable [0, 1] \<rparr>),
      (3, \<lparr> before_all = False, after_all = False, run_after = RA_Function 2 \<rparr>),
      (4, \<lparr> before_all = True, after_all = False, run_after = RA_None \<rparr>),
      (5, \<lparr> before_all = False, after_all = True, run_after = RA_None \<rparr>)]"

text \<open>
  The nodes of a schema tree, each with the state that belongs to it: the root with the
  root state, and a child named \<open>name\<close> with the attribute \<open>name\<close> of its parent's state, or
  with no state when the parent's state is absent or not true.
\<close>

fun child_state_of :: "state option \<Rightarrow> string \<Rightarrow> state option" where
  "child_state_of None name = None"
| "child_state_of (Some st) name =
     (if state_true st then (case map_of (state_attrs st) name of None \<Rightarrow> None | Some v \<Rightarrow> v)
      else None)"

inductive node_of :: "attr \<Rightarrow> state option \<Rightarrow> attr \<Rightarrow> state option \<Rightarrow> bool" where
  here: "node_of a s a s"
| below: "(name, c) \<in> set (bh_named_children a) \<Longrightarrow> node_of c (child_state_of s name) a' s'
            \<Longrightarrow> node_of a s a' s'"

text \<open>
  The triples that the selection condition of the code admits, over the nodes below the
  entries of a queue.
\<close>

definition selected_from ::
  "(string list \<Rightarrow> 'c option \<times> 'c options) \<Rightarrow> state option \<Rightarrow> (attr \<times> state option) list
     \<Rightarrow> ('c \<times> attr \<times> state option) set" where
  "selected_from query root_state queue =
     {(cb, a, s). (\<exists>(a0, s0) \<in> set queue. node_of a0 s0 a s)
        \<and> fst (query (bh_path a)) = Some cb \<and> (present s \<or> root_state = None)}"

text \<open>
  Section 4.4 of the specification, SelectCallbacks: the selector runs once for each of
  the three collections against the input state. A collection that the resource does not
  have gives the empty sequence.
\<close>

definition collection_of :: "'c resource \<Rightarrow> string \<Rightarrow> 'c attr_collection option" where
  "collection_of r name =
     (if name = ''attributes'' then attributes_obj r
      else if name = ''relationships'' then relationships_obj r
      else resource_id_obj r)"

fun select_each_spec ::
  "'c resource \<Rightarrow> ResourceState \<Rightarrow> string list
     \<Rightarrow> error + (string \<times> ('c \<times> attr \<times> state option) list) list" where
  "select_each_spec r st [] = Inr []"
| "select_each_spec r st (name # names) =
     (case (case collection_of r name of
              None \<Rightarrow> Inr []
            | Some col \<Rightarrow>
                select_callbacks_of (get_registered_callback_and_options col) (attr_obj col)
                  (state_key st name)) of
        Inl e \<Rightarrow> Inl e
      | Inr sel \<Rightarrow>
          (case select_each_spec r st names of
             Inl e \<Rightarrow> Inl e
           | Inr rest \<Rightarrow> Inr ((name, sel) # rest)))"

definition select_callbacks_spec ::
  "'c resource \<Rightarrow> ResourceState \<Rightarrow> error + (string \<times> ('c \<times> attr \<times> state option) list) list"
  where
  "select_callbacks_spec r st = select_each_spec r st COLLECTION_NAMES"

text \<open>
  Section 4.4, Invoke: the callback set of a collection with the ordering constraints
  that were declared at registration, as the input of the scheduler; and, of a log, the
  callbacks of every awaited gather, in order (the groups that were really executed one
  after the other).
\<close>

definition constraints_of ::
  "(string list \<Rightarrow> 'c option \<times> 'c options) \<Rightarrow> ('c \<times> attr \<times> state option) list
     \<Rightarrow> ('c \<times> 'c options) list" where
  "constraints_of query selected = map (\<lambda>(cb, a, st). (cb, snd (query (bh_path a)))) selected"

definition gathers :: "'c event list \<Rightarrow> 'c list list" where
  "gathers log = concat (map (\<lambda>e. case e of Gather calls \<Rightarrow> [map fst calls] | _ \<Rightarrow> []) log)"

text \<open>
  The calls of one collection that reach their callback: in selection order, every
  selected callback whose parameters without default are all in its keyword context,
  with that context restricted to its parameters.
\<close>

definition reached ::
  "'c pipeline \<Rightarrow> ('c \<times> attr \<times> state option) list \<Rightarrow> ('c \<times> (string \<rightharpoonup> ctxval)) list" where
  "reached p selected =
     concat (map (\<lambda>(cb, a, st).
        if set (map fst (filter (\<lambda>q. \<not> snd q) (params (impl p cb))))
             \<subseteq> dom (callback_kwargs (context_rule p) a st)
        then [(cb, callback_kwargs (context_rule p) a st |` set (map fst (params (impl p cb))))]
        else []) selected)"

section \<open>Invariants of the scheduler\<close>

text \<open>
  The definitions of this section state what the proofs about the scheduler keep track
  of; none of them is part of the program.
\<close>

text \<open>
  \<open>pass_inv seen st\<close> says what the first pass has stored in its variables after the
  entries \<open>seen\<close>. \<open>graph_nodes\<close> are the callbacks that take part in the search: all
  but the one declared \<^verbatim>\<open>after_all\<close>.
\<close>

definition pass_inv :: "('c \<times> 'c options) list \<Rightarrow> 'c sched \<Rightarrow> bool" where
  "pass_inv seen st \<longleftrightarrow>
     root st = (case filter (\<lambda>e. before_all (snd e)) seen of [] \<Rightarrow> None | e # _ \<Rightarrow> Some (fst e))
   \<and> last_cb st = (case filter (\<lambda>e. after_all (snd e)) seen of [] \<Rightarrow> None | e # _ \<Rightarrow> Some (fst e))
   \<and> (\<forall>c. set (parents st c)
          = {p. \<exists>opts. (c, opts) \<in> set seen \<and> is_node opts
                 \<and> p \<in> set (declared_parents (run_after opts))})
   \<and> (\<forall>p c. c \<in> set (children st p) \<longleftrightarrow> p \<in> set (parents st c))
   \<and> (\<forall>x. map_of (searched st) x
          = (if \<exists>opts. (x, opts) \<in> set seen \<and> \<not> after_all opts then Some WHITE else None))
   \<and> search_starts st
       = map fst (filter (\<lambda>e. is_node (snd e) \<and> run_after (snd e) = RA_None) seen)"

definition graph_nodes :: "('c \<times> 'c options) list \<Rightarrow> 'c set" where
  "graph_nodes input = {x. \<exists>opts. (x, opts) \<in> set input \<and> \<not> after_all opts}"

text \<open>
  \<open>frame sg sg'\<close> relates the pair of \<^verbatim>\<open>searched\<close> and \<^verbatim>\<open>group\<close> before and after a
  successful search: the keys stay, only white callbacks change and they become black,
  and \<^verbatim>\<open>group\<close> grows by exactly the callbacks that became black, each once.
\<close>

definition frame ::
  "('c \<times> TopologySearchColor) list \<times> 'c list \<Rightarrow> ('c \<times> TopologySearchColor) list \<times> 'c list \<Rightarrow> bool"
  where
  "frame sg sg' \<longleftrightarrow>
     dom (map_of (fst sg')) = dom (map_of (fst sg)) \<and>
     (\<forall>x. map_of (fst sg) x \<noteq> Some WHITE \<longrightarrow> map_of (fst sg') x = map_of (fst sg) x) \<and>
     (\<forall>x. map_of (fst sg) x = Some WHITE \<longrightarrow>
          map_of (fst sg') x = Some WHITE \<or> map_of (fst sg') x = Some BLACK) \<and>
     (\<exists>new. snd sg' = snd sg @ new \<and> distinct new \<and>
        set new = {x. map_of (fst sg) x = Some WHITE \<and> map_of (fst sg') x = Some BLACK})"

text \<open>
  \<open>closed_black\<close>: every child of a black callback is black. \<open>topo ch xs\<close>: no member
  of \<open>xs\<close> is a child of itself or of a member that comes later in \<open>xs\<close>, so that parents
  come before their children. \<open>newpart sg sg'\<close> is what a search appended to \<^verbatim>\<open>group\<close>.
  \<open>edges ch\<close> is the relation "parent, child" of the graph that is searched.
\<close>

definition closed_black :: "('c \<Rightarrow> 'c list) \<Rightarrow> ('c \<times> TopologySearchColor) list \<Rightarrow> bool" where
  "closed_black ch s \<longleftrightarrow>
     (\<forall>x. map_of s x = Some BLACK \<longrightarrow> (\<forall>y \<in> set (ch x). map_of s y = Some BLACK))"

fun topo :: "('c \<Rightarrow> 'c list) \<Rightarrow> 'c list \<Rightarrow> bool" where
  "topo ch [] = True"
| "topo ch (c # cs) = ((\<forall>z \<in> set (c # cs). c \<notin> set (ch z)) \<and> topo ch cs)"

definition newpart ::
  "('c \<times> TopologySearchColor) list \<times> 'c list \<Rightarrow> ('c \<times> TopologySearchColor) list \<times> 'c list \<Rightarrow> 'c list"
  where
  "newpart sg sg' = drop (length (snd sg)) (snd sg')"

definition edges :: "('c \<Rightarrow> 'c list) \<Rightarrow> ('c \<times> 'c) set" where
  "edges ch = {(x, y). y \<in> set (ch x)}"

text \<open>
  \<open>starts_inv\<close> is the invariant of the loop over the start points: no callback is gray,
  the black callbacks are the members of \<^verbatim>\<open>groups\<close>, each once, no group is empty, and
  read from the last group to the first, parents come before their children.
\<close>

definition starts_inv ::
  "('c \<Rightarrow> 'c list) \<Rightarrow> ('c \<times> TopologySearchColor) list \<Rightarrow> 'c list list \<Rightarrow> bool" where
  "starts_inv ch s groups \<longleftrightarrow>
     closed_black ch s \<and> (\<forall>x. map_of s x \<noteq> Some GRAY)
     \<and> {x. map_of s x = Some BLACK} = set (concat groups)
     \<and> distinct (concat groups) \<and> topo ch (concat (rev groups)) \<and> [] \<notin> set groups"

text \<open>
  \<open>is_ready\<close> is the value of \<^verbatim>\<open>ready\<close> after the loop over the parents. \<open>staged pa gs\<close>:
  no member of a group has a parent in its own or in a later group. \<open>group_inv\<close> is the
  invariant of the loop \<^verbatim>\<open>while groups\<close>: the deques are non-empty and hold every callback
  once, in an order that puts parents first when the deques are read from the last to
  the first; the black callbacks are the ones still in a deque; and the parents of the
  callbacks in the deques are keys of \<^verbatim>\<open>searched\<close>.
\<close>

definition is_ready :: "('c \<Rightarrow> 'c list) \<Rightarrow> ('c \<times> TopologySearchColor) list \<Rightarrow> 'c \<Rightarrow> bool" where
  "is_ready pa s c \<longleftrightarrow> (\<forall>p \<in> set (pa c). map_of s p \<noteq> Some BLACK)"

fun staged :: "('c \<Rightarrow> 'c list) \<Rightarrow> 'c list list \<Rightarrow> bool" where
  "staged pa [] = True"
| "staged pa (g # gs) = ((\<forall>c \<in> set g. set (pa c) \<inter> set (concat (g # gs)) = {}) \<and> staged pa gs)"

definition group_inv ::
  "('c \<Rightarrow> 'c list) \<Rightarrow> ('c \<Rightarrow> 'c list) \<Rightarrow> ('c \<times> TopologySearchColor) list \<Rightarrow> 'c list list \<Rightarrow> bool"
  where
  "group_inv ch pa s groups \<longleftrightarrow>
     [] \<notin> set groups \<and> distinct (concat groups) \<and> topo ch (concat (rev groups))
     \<and> (\<forall>x. map_of s x = Some BLACK \<longleftrightarrow> x \<in> set (concat groups))
     \<and> (\<forall>c \<in> set (concat groups). set (pa c) \<subseteq> dom (map_of s))"

section \<open>A small pipeline to evaluate\<close>

text \<open>
  The attributes of the example resource have two leaves, \<^verbatim>\<open>a\<close> and \<^verbatim>\<open>b\<close>. Callback 1 is
  registered at \<^verbatim>\<open>a\<close> and declared to run after callback 2, which is registered at \<^verbatim>\<open>b\<close>.
  Both callbacks take \<^verbatim>\<open>state\<close> and an optional \<^verbatim>\<open>extra\<close> and return their own number; the
  input state holds a true state at the root and at both leaves. \<open>ex_pipeline valid\<close>
  is a pipeline over this resource whose states all validate to \<open>valid\<close>.
\<close>

definition ex_query :: "string list \<Rightarrow> nat option \<times> nat options" where
  "ex_query path =
     (if path = [''a'']
      then (Some 1, \<lparr> before_all = False, after_all = False, run_after = RA_Function 2 \<rparr>)
      else if path = [''b'']
      then (Some 2, \<lparr> before_all = False, after_all = False, run_after = RA_None \<rparr>)
      else (None, \<lparr> before_all = False, after_all = False, run_after = RA_None \<rparr>))"

definition ex_root :: attr where
  "ex_root = Attr [] [(''a'', Attr [''a''] []), (''b'', Attr [''b''] [])]"

definition ex_resource :: "nat resource" where
  "ex_resource =
     \<lparr> attributes_obj =
         Some \<lparr> get_registered_callback_and_options = ex_query, attr_obj = ex_root \<rparr>,
       relationships_obj = None, resource_id_obj = None \<rparr>"

definition ex_state :: ResourceState where
  "ex_state =
     \<lparr> attributes =
         Some (State True [(''a'', Some (State True [])), (''b'', Some (State True []))]),
       relationships = None, resource_id = None \<rparr>"

definition ex_impl :: "nat \<Rightarrow> (ctxval, pyval) func" where
  "ex_impl c = \<lparr> params = [(''state'', False), (''extra'', True)],
                 call = (\<lambda>args kw. Inr (PInt (int c))) \<rparr>"

definition ex_pipeline :: "bool \<Rightarrow> nat pipeline" where
  "ex_pipeline valid =
     \<lparr> resource = ex_resource,
       context_rule = \<lparr> state_validate = (\<lambda>st. valid), raw_resource_id = None \<rparr>,
       impl = ex_impl,
       build_input_state = (\<lambda>r. Inr ex_state),
       build_output_state =
         (\<lambda>r m. Inr \<lparr> attributes = None, relationships = None, resource_id = None \<rparr>),
       rep_generator = None \<rparr>"

text \<open>
  A resource whose only collection is the resource identifier, with callback 3 registered
  at its root, and an input state for it.
\<close>

definition ex_id_resource :: "nat resource" where
  "ex_id_resource =
     \<lparr> attributes_obj = None, relationships_obj = None,
       resource_id_obj =
         Some \<lparr> get_registered_callback_and_options =
                  (\<lambda>path. (Some 3, \<lparr> before_all = False, after_all = False,
                                      run_after = RA_None \<rparr>)),
                attr_obj = Attr [] [] \<rparr> \<rparr>"

definition ex_id_state :: ResourceState where
  "ex_id_state = \<lparr> attributes = None, relationships = None, resource_id = Some (State True []) \<rparr>"

lemmas ex_defs =
  ex_pipeline_def ex_resource_def ex_state_def ex_root_def ex_query_def ex_impl_def

lemmas select_defs =
  select_callbacks_def resource_key_def state_key_def select_callbacks_of_def
  getattr_state_def COLLECTION_NAMES_def

lemmas invoke_defs =
  invoke_callbacks_def pending_def callback_kwargs_def async_call_def
  extract_kwargs_subset_def Let_def merge_paths_def merge_output_of_callbacks_def
  TreeState_empty_def tree_true_def

lemma ex_invoke_callbacks:
  "invoke_callbacks (ex_pipeline v) ex_state =
     (Inr [(''attributes'', PDict [(''a'', PInt 1), (''b'', PInt 2)]),
           (''relationships'', PDict []), (''resource_id'', PDict [])],
      [Select_callbacks,
       Gather [(1, [''state'' \<mapsto> CState (Some (State True []))]),
               (2, [''state'' \<mapsto> CState (Some (State True []))])]])"
  by (simp add: ex_defs select_defs invoke_defs restrict_map_def fun_eq_iff)

section \<open>Claims about the scheduler\<close>

subsection \<open>The search: what a successful call changes\<close>

text \<open>A successful call of \<open>DFS\<close> or \<open>DFS_children\<close> satisfies \<open>frame\<close>.\<close>

lemma frame_refl: "frame sg sg"
  by (auto simp: frame_def)

lemma frame_trans:
  assumes "frame a b" "frame b c"
  shows "frame a c"
proof -
  from assms(1) obtain n1 where n1: "snd b = snd a @ n1" "distinct n1"
    "set n1 = {x. map_of (fst a) x = Some WHITE \<and> map_of (fst b) x = Some BLACK}"
    unfolding frame_def by blast
  from assms(2) obtain n2 where n2: "snd c = snd b @ n2" "distinct n2"
    "set n2 = {x. map_of (fst b) x = Some WHITE \<and> map_of (fst c) x = Some BLACK}"
    unfolding frame_def by blast
  have d: "dom (map_of (fst c)) = dom (map_of (fst a))"
    using assms unfolding frame_def by simp
  have u: "\<forall>x. map_of (fst a) x \<noteq> Some WHITE \<longrightarrow> map_of (fst c) x = map_of (fst a) x"
    using assms unfolding frame_def by metis
  have w: "\<forall>x. map_of (fst a) x = Some WHITE \<longrightarrow>
          map_of (fst c) x = Some WHITE \<or> map_of (fst c) x = Some BLACK"
    using assms unfolding frame_def by (metis TopologySearchColor.distinct(5) option.inject)
  have dj: "set n1 \<inter> set n2 = {}" using n1(3) n2(3) by auto
  have st: "set (n1 @ n2) = {x. map_of (fst a) x = Some WHITE \<and> map_of (fst c) x = Some BLACK}"
  proof (intro set_eqI iffI)
    fix x assume "x \<in> set (n1 @ n2)"
    then consider "x \<in> set n1" | "x \<in> set n2" by auto
    then show "x \<in> {x. map_of (fst a) x = Some WHITE \<and> map_of (fst c) x = Some BLACK}"
    proof cases
      case 1
      with n1(3) have "map_of (fst a) x = Some WHITE" "map_of (fst b) x = Some BLACK" by auto
      moreover from this(2) assms(2) have "map_of (fst c) x = Some BLACK"
        unfolding frame_def by simp
      ultimately show ?thesis by simp
    next
      case 2
      with n2(3) have b: "map_of (fst b) x = Some WHITE" "map_of (fst c) x = Some BLACK" by auto
      have "map_of (fst a) x = Some WHITE"
      proof (rule ccontr)
        assume "map_of (fst a) x \<noteq> Some WHITE"
        with assms(1) have "map_of (fst b) x = map_of (fst a) x" unfolding frame_def by simp
        with b(1) \<open>map_of (fst a) x \<noteq> Some WHITE\<close> show False by simp
      qed
      with b show ?thesis by simp
    qed
  next
    fix x assume "x \<in> {x. map_of (fst a) x = Some WHITE \<and> map_of (fst c) x = Some BLACK}"
    then have a: "map_of (fst a) x = Some WHITE" and c: "map_of (fst c) x = Some BLACK" by auto
    from a assms(1) consider "map_of (fst b) x = Some WHITE" | "map_of (fst b) x = Some BLACK"
      unfolding frame_def by blast
    then show "x \<in> set (n1 @ n2)"
    proof cases
      case 1 with c n2(3) show ?thesis by simp
    next
      case 2 with a n1(3) show ?thesis by simp
    qed
  qed
  have "snd c = snd a @ (n1 @ n2)" using n1(1) n2(1) by simp
  moreover have "distinct (n1 @ n2)" using n1(2) n2(2) dj by simp
  ultimately show ?thesis
    unfolding frame_def using d u w st by blast
qed

lemma frame_visit:
  assumes w: "map_of s c = Some WHITE"
    and f: "frame (AList.update c GRAY s, g) sg1"
  shows "frame (s, g) (AList.update c BLACK (fst sg1), snd sg1 @ [c])"
proof -
  let ?B = "AList.update c GRAY s"
  have Bc: "map_of ?B c = Some GRAY" by (simp add: update_conv')
  have Bx: "\<And>x. x \<noteq> c \<Longrightarrow> map_of ?B x = map_of s x" by (simp add: update_conv')
  from f have c1: "map_of (fst sg1) c = Some GRAY"
    unfolding frame_def using Bc by simp
  from f obtain n1 where n1: "snd sg1 = g @ n1" "distinct n1"
    "set n1 = {x. map_of ?B x = Some WHITE \<and> map_of (fst sg1) x = Some BLACK}"
    unfolding frame_def by auto
  have cn: "c \<notin> set n1" using n1(3) Bc by simp
  have d: "dom (map_of (AList.update c BLACK (fst sg1))) = dom (map_of s)"
    using f w unfolding frame_def by (auto simp: update_conv')
  have u: "\<forall>x. map_of s x \<noteq> Some WHITE \<longrightarrow> map_of (AList.update c BLACK (fst sg1)) x = map_of s x"
    using f w Bx unfolding frame_def by (auto simp: update_conv')
  have wh: "\<forall>x. map_of s x = Some WHITE \<longrightarrow>
      map_of (AList.update c BLACK (fst sg1)) x = Some WHITE
      \<or> map_of (AList.update c BLACK (fst sg1)) x = Some BLACK"
    using f Bx unfolding frame_def by (auto simp: update_conv')
  have st: "set (n1 @ [c]) = {x. map_of s x = Some WHITE
      \<and> map_of (AList.update c BLACK (fst sg1)) x = Some BLACK}"
    using n1(3) w Bx c1 by (auto simp: update_conv')
  have "snd sg1 @ [c] = g @ (n1 @ [c])" using n1(1) by simp
  moreover have "distinct (n1 @ [c])" using n1(2) cn by simp
  ultimately show ?thesis
    unfolding frame_def fst_conv snd_conv using d u wh st by blast
qed

lemma DFS_frame:
  "DFS ch sg c = Inr sg' \<Longrightarrow> frame sg sg'"
  "DFS_children ch sg cs = Inr sg' \<Longrightarrow> frame sg sg'"
proof (induction ch sg c and ch sg cs arbitrary: sg' and sg' rule: DFS_DFS_children.induct)
  case (1 ch sg callback)
  show ?case
  proof (cases "map_of (fst sg) callback")
    case None
    with "1.prems" show ?thesis by (simp add: DFS.simps)
  next
    case (Some col)
    show ?thesis
    proof (cases col)
      case WHITE
      with Some "1.prems" obtain sg1 where
        c: "DFS_children ch (AList.update callback GRAY (fst sg), snd sg) (ch callback) = Inr sg1"
        and r: "sg' = (AList.update callback BLACK (fst sg1), snd sg1 @ [callback])"
        by (auto simp: DFS.simps split: sum.splits)
      from "1.IH"[OF Some WHITE c]
      have "frame (AList.update callback GRAY (fst sg), snd sg) sg1" .
      from frame_visit[OF Some[unfolded WHITE] this] r show ?thesis by simp
    next
      case GRAY
      with Some "1.prems" show ?thesis by (simp add: DFS.simps)
    next
      case BLACK
      with Some "1.prems" show ?thesis by (simp add: DFS.simps frame_refl)
    qed
  qed
next
  case (2 ch sg)
  then show ?case by (simp add: frame_refl)
next
  case (3 ch sg child_callback rest)
  from "3.prems" obtain sg1 where a: "DFS ch sg child_callback = Inr sg1"
    and b: "DFS_children ch sg1 rest = Inr sg'"
    by (auto split: sum.splits)
  from frame_trans[OF "3.IH"(1)[OF a] "3.IH"(2)[OF a b]] show ?case .
qed

subsection \<open>The search: finished callbacks and their order\<close>

text \<open>
  A successful search leaves its callback black, keeps the children of black callbacks
  black, and appends callbacks to \<^verbatim>\<open>group\<close> children first. In a graph without cycle whose
  nodes are all keys of \<^verbatim>\<open>searched\<close>, a search always succeeds.
\<close>

lemma newpart_eq: "snd sg' = snd sg @ n \<Longrightarrow> newpart sg sg' = n"
  by (simp add: newpart_def)

lemma topo_append:
  "topo ch (xs @ ys) \<longleftrightarrow>
     topo ch xs \<and> topo ch ys \<and> (\<forall>x \<in> set xs. \<forall>z \<in> set ys. x \<notin> set (ch z))"
  by (induction xs) auto

lemma frame_newpart:
  assumes "frame sg sg'"
  shows "snd sg' = snd sg @ newpart sg sg'" "distinct (newpart sg sg')"
    "set (newpart sg sg')
       = {x. map_of (fst sg) x = Some WHITE \<and> map_of (fst sg') x = Some BLACK}"
proof -
  from assms obtain new where n: "snd sg' = snd sg @ new" "distinct new"
    "set new = {x. map_of (fst sg) x = Some WHITE \<and> map_of (fst sg') x = Some BLACK}"
    unfolding frame_def by blast
  then have "newpart sg sg' = new" by (simp add: newpart_def)
  with n show "snd sg' = snd sg @ newpart sg sg'" "distinct (newpart sg sg')"
    "set (newpart sg sg')
       = {x. map_of (fst sg) x = Some WHITE \<and> map_of (fst sg') x = Some BLACK}"
    by simp_all
qed

lemma frame_gray:
  assumes "frame sg sg'"
  shows "map_of (fst sg') x = Some GRAY \<longleftrightarrow> map_of (fst sg) x = Some GRAY"
proof (cases "map_of (fst sg) x = Some WHITE")
  case True
  with assms have "map_of (fst sg') x = Some WHITE \<or> map_of (fst sg') x = Some BLACK"
    unfolding frame_def by blast
  with True show ?thesis by auto
next
  case False
  with assms have "map_of (fst sg') x = map_of (fst sg) x" unfolding frame_def by blast
  then show ?thesis by simp
qed

lemma frame_black:
  assumes "frame sg sg'" "map_of (fst sg) x = Some BLACK"
  shows "map_of (fst sg') x = Some BLACK"
  using assms unfolding frame_def by simp

lemma frame_dom: "frame sg sg' \<Longrightarrow> dom (map_of (fst sg')) = dom (map_of (fst sg))"
  unfolding frame_def by simp

lemma closed_black_gray:
  assumes "closed_black ch s" "map_of s c = Some WHITE"
  shows "closed_black ch (AList.update c GRAY s)"
  unfolding closed_black_def
proof (intro allI impI ballI)
  fix x y
  assume b: "map_of (AList.update c GRAY s) x = Some BLACK" and y: "y \<in> set (ch x)"
  from b have xb: "map_of s x = Some BLACK" by (auto simp: update_conv' split: if_splits)
  with assms(1) y have yb: "map_of s y = Some BLACK" unfolding closed_black_def by blast
  with assms(2) have "y \<noteq> c" by auto
  with yb show "map_of (AList.update c GRAY s) y = Some BLACK" by (simp add: update_conv')
qed

lemma closed_black_finish:
  assumes "closed_black ch s" "\<forall>y \<in> set (ch c). map_of s y = Some BLACK"
  shows "closed_black ch (AList.update c BLACK s)"
  unfolding closed_black_def
proof (intro allI impI ballI)
  fix x y
  assume b: "map_of (AList.update c BLACK s) x = Some BLACK" and y: "y \<in> set (ch x)"
  have "map_of s y = Some BLACK"
  proof (cases "x = c")
    case True
    with assms(2) y show ?thesis by simp
  next
    case False
    with b have "map_of s x = Some BLACK" by (simp add: update_conv')
    with assms(1) y show ?thesis unfolding closed_black_def by blast
  qed
  then show "map_of (AList.update c BLACK s) y = Some BLACK" by (simp add: update_conv')
qed

lemma DFS_post:
  "DFS ch sg c = Inr sg' \<Longrightarrow> closed_black ch (fst sg) \<Longrightarrow>
     map_of (fst sg') c = Some BLACK \<and> closed_black ch (fst sg')
     \<and> topo ch (rev (newpart sg sg'))"
  "DFS_children ch sg cs = Inr sg' \<Longrightarrow> closed_black ch (fst sg) \<Longrightarrow>
     (\<forall>y \<in> set cs. map_of (fst sg') y = Some BLACK) \<and> closed_black ch (fst sg')
     \<and> topo ch (rev (newpart sg sg'))"
proof (induction ch sg c and ch sg cs arbitrary: sg' and sg' rule: DFS_DFS_children.induct)
  case (1 ch sg callback)
  show ?case
  proof (cases "map_of (fst sg) callback")
    case None
    with "1.prems" show ?thesis by (simp add: DFS.simps)
  next
    case (Some col)
    show ?thesis
    proof (cases col)
      case WHITE
      let ?B = "(AList.update callback GRAY (fst sg), snd sg)"
      from WHITE Some "1.prems" obtain sg1 where
        c: "DFS_children ch ?B (ch callback) = Inr sg1"
        and r: "sg' = (AList.update callback BLACK (fst sg1), snd sg1 @ [callback])"
        by (auto simp: DFS.simps split: sum.splits)
      have w: "map_of (fst sg) callback = Some WHITE" using Some WHITE by simp
      have cb: "closed_black ch (fst ?B)"
        using closed_black_gray[OF "1.prems"(2) w] by simp
      from "1.IH"[OF Some WHITE c cb] have
        kids: "\<forall>y \<in> set (ch callback). map_of (fst sg1) y = Some BLACK"
        and cb1: "closed_black ch (fst sg1)"
        and t1: "topo ch (rev (newpart ?B sg1))"
        by simp_all
      have f1: "frame ?B sg1" by (rule DFS_frame(2)[OF c])
      have g1: "map_of (fst sg1) callback = Some GRAY"
        using frame_gray[OF f1, of callback] by (simp add: update_conv')
      have "snd sg' = snd sg @ (newpart ?B sg1 @ [callback])"
        using frame_newpart(1)[OF f1] r by simp
      then have np: "newpart sg sg' = newpart ?B sg1 @ [callback]"
        by (rule newpart_eq)
      have self: "callback \<notin> set (ch callback)" using kids g1 by auto
      have others: "\<forall>z \<in> set (newpart ?B sg1). callback \<notin> set (ch z)"
      proof
        fix z assume "z \<in> set (newpart ?B sg1)"
        then have "map_of (fst sg1) z = Some BLACK"
          using frame_newpart(3)[OF f1] by simp
        with cb1 have "\<forall>y \<in> set (ch z). map_of (fst sg1) y = Some BLACK"
          unfolding closed_black_def by blast
        with g1 show "callback \<notin> set (ch z)" by auto
      qed
      have "map_of (fst sg') callback = Some BLACK" using r by (simp add: update_conv')
      moreover have "closed_black ch (fst sg')"
        using closed_black_finish[OF cb1 kids] r by simp
      moreover have "topo ch (rev (newpart sg sg'))"
        unfolding np using t1 self others by simp
      ultimately show ?thesis by blast
    next
      case GRAY
      with Some "1.prems" show ?thesis by (simp add: DFS.simps)
    next
      case BLACK
      with Some "1.prems" show ?thesis by (auto simp: DFS.simps newpart_def)
    qed
  qed
next
  case (2 ch sg)
  then show ?case by (simp add: newpart_def)
next
  case (3 ch sg child_callback rest)
  from "3.prems" obtain sg1 where a: "DFS ch sg child_callback = Inr sg1"
    and b: "DFS_children ch sg1 rest = Inr sg'"
    by (auto split: sum.splits)
  from "3.IH"(1)[OF a "3.prems"(2)] have
    y1: "map_of (fst sg1) child_callback = Some BLACK"
    and cb1: "closed_black ch (fst sg1)"
    and t1: "topo ch (rev (newpart sg sg1))" by simp_all
  from "3.IH"(2)[OF a b cb1] have
    ys: "\<forall>y \<in> set rest. map_of (fst sg') y = Some BLACK"
    and cb2: "closed_black ch (fst sg')"
    and t2: "topo ch (rev (newpart sg1 sg'))" by simp_all
  have f1: "frame sg sg1" by (rule DFS_frame(1)[OF a])
  have f2: "frame sg1 sg'" by (rule DFS_frame(2)[OF b])
  have "snd sg' = snd sg @ (newpart sg sg1 @ newpart sg1 sg')"
    using frame_newpart(1)[OF f1] frame_newpart(1)[OF f2] by simp
  then have np: "newpart sg sg' = newpart sg sg1 @ newpart sg1 sg'"
    by (rule newpart_eq)
  have cross: "\<forall>x \<in> set (newpart sg1 sg'). \<forall>z \<in> set (newpart sg sg1). x \<notin> set (ch z)"
  proof (intro ballI)
    fix x z assume x: "x \<in> set (newpart sg1 sg')" and z: "z \<in> set (newpart sg sg1)"
    from z have "map_of (fst sg1) z = Some BLACK" using frame_newpart(3)[OF f1] by simp
    with cb1 have "\<forall>y \<in> set (ch z). map_of (fst sg1) y = Some BLACK"
      unfolding closed_black_def by blast
    moreover from x have "map_of (fst sg1) x = Some WHITE" using frame_newpart(3)[OF f2] by simp
    ultimately show "x \<notin> set (ch z)" by auto
  qed
  have "\<forall>y \<in> set (child_callback # rest). map_of (fst sg') y = Some BLACK"
    using ys frame_black[OF f2 y1] by simp
  moreover have "topo ch (rev (newpart sg sg'))"
    unfolding np using t1 t2 cross by (simp add: topo_append)
  ultimately show ?case using cb2 by blast
qed

lemma DFS_succeeds:
  "acyclic (edges ch) \<Longrightarrow> (\<forall>x. set (ch x) \<subseteq> dom (map_of (fst sg))) \<Longrightarrow>
     c \<in> dom (map_of (fst sg)) \<Longrightarrow>
     (\<forall>x. map_of (fst sg) x = Some GRAY \<longrightarrow> (x, c) \<in> (edges ch)\<^sup>+) \<Longrightarrow>
     \<exists>sg'. DFS ch sg c = Inr sg'"
  "acyclic (edges ch) \<Longrightarrow> (\<forall>x. set (ch x) \<subseteq> dom (map_of (fst sg))) \<Longrightarrow>
     set cs \<subseteq> dom (map_of (fst sg)) \<Longrightarrow>
     (\<forall>x. map_of (fst sg) x = Some GRAY \<longrightarrow> (\<forall>y \<in> set cs. (x, y) \<in> (edges ch)\<^sup>+)) \<Longrightarrow>
     \<exists>sg'. DFS_children ch sg cs = Inr sg'"
proof (induction ch sg c and ch sg cs rule: DFS_DFS_children.induct)
  case (1 ch sg callback)
  from "1.prems"(3) obtain col where Some: "map_of (fst sg) callback = Some col" by auto
  show ?case
  proof (cases col)
    case WHITE
    let ?B = "(AList.update callback GRAY (fst sg), snd sg)"
    have d: "dom (map_of (fst ?B)) = dom (map_of (fst sg))"
      using Some by (auto simp: update_conv')
    have p2: "\<forall>x. set (ch x) \<subseteq> dom (map_of (fst ?B))" using "1.prems"(2) d by simp
    have p3: "set (ch callback) \<subseteq> dom (map_of (fst ?B))" using p2 by blast
    have p4: "\<forall>x. map_of (fst ?B) x = Some GRAY \<longrightarrow>
        (\<forall>y \<in> set (ch callback). (x, y) \<in> (edges ch)\<^sup>+)"
    proof (intro allI impI ballI)
      fix x y assume g: "map_of (fst ?B) x = Some GRAY" and y: "y \<in> set (ch callback)"
      from y have e: "(callback, y) \<in> edges ch" by (simp add: edges_def)
      show "(x, y) \<in> (edges ch)\<^sup>+"
      proof (cases "x = callback")
        case True
        with e show ?thesis by blast
      next
        case False
        with g have "map_of (fst sg) x = Some GRAY" by (simp add: update_conv')
        with "1.prems"(4) have "(x, callback) \<in> (edges ch)\<^sup>+" by blast
        then show ?thesis using e by (rule trancl_into_trancl)
      qed
    qed
    from "1.IH"[OF Some WHITE "1.prems"(1) p2 p3 p4] obtain sg1 where
      "DFS_children ch ?B (ch callback) = Inr sg1" by blast
    with Some WHITE show ?thesis by (simp add: DFS.simps)
  next
    case GRAY
    with Some "1.prems"(4) have "(callback, callback) \<in> (edges ch)\<^sup>+" by blast
    with "1.prems"(1) show ?thesis by (simp add: acyclic_def)
  next
    case BLACK
    with Some show ?thesis by (simp add: DFS.simps)
  qed
next
  case (2 ch sg)
  show ?case by simp
next
  case (3 ch sg child_callback rest)
  have "\<exists>sg1. DFS ch sg child_callback = Inr sg1"
    using "3.IH"(1)[OF "3.prems"(1,2)] "3.prems"(3,4) by simp
  then obtain sg1 where a: "DFS ch sg child_callback = Inr sg1" by blast
  have f: "frame sg sg1" by (rule DFS_frame(1)[OF a])
  have d: "dom (map_of (fst sg1)) = dom (map_of (fst sg))" by (rule frame_dom[OF f])
  have "\<exists>sg'. DFS_children ch sg1 rest = Inr sg'"
  proof (rule "3.IH"(2)[OF a "3.prems"(1)])
    show "\<forall>x. set (ch x) \<subseteq> dom (map_of (fst sg1))" using "3.prems"(2) d by simp
    show "set rest \<subseteq> dom (map_of (fst sg1))" using "3.prems"(3) d by simp
    show "\<forall>x. map_of (fst sg1) x = Some GRAY \<longrightarrow> (\<forall>y\<in>set rest. (x, y) \<in> (edges ch)\<^sup>+)"
      using "3.prems"(4) frame_gray[OF f] by simp
  qed
  with a show ?case by simp
qed

subsection \<open>The loop over the start points\<close>

text \<open>Each search from a start point keeps \<open>starts_inv\<close>; so does the whole loop.\<close>

lemma starts_inv_step:
  assumes inv: "starts_inv ch s groups"
    and run: "DFS ch (s, []) start = Inr sg1"
  shows "starts_inv ch (fst sg1) (if snd sg1 \<noteq> [] then groups @ [rev (snd sg1)] else groups)"
    and "map_of (fst sg1) start = Some BLACK"
    and "dom (map_of (fst sg1)) = dom (map_of s)"
    and "\<forall>x. map_of s x = Some BLACK \<longrightarrow> map_of (fst sg1) x = Some BLACK"
proof -
  let ?groups1 = "if snd sg1 \<noteq> [] then groups @ [rev (snd sg1)] else groups"
  from inv have cb: "closed_black ch s" and ng: "\<forall>x. map_of s x \<noteq> Some GRAY"
    and bl: "{x. map_of s x = Some BLACK} = set (concat groups)"
    and di: "distinct (concat groups)" and tp: "topo ch (concat (rev groups))"
    and ne: "[] \<notin> set groups"
    unfolding starts_inv_def by blast+
  have f: "frame (s, []) sg1" by (rule DFS_frame(1)[OF run])
  have post: "newpart (s, []) sg1 = snd sg1" by (simp add: newpart_def)
  from DFS_post(1)[OF run] cb have
    sb: "map_of (fst sg1) start = Some BLACK" and cb1: "closed_black ch (fst sg1)"
    and t1: "topo ch (rev (snd sg1))"
    by (simp_all add: post)
  have dp: "distinct (snd sg1)" using frame_newpart(2)[OF f] post by simp
  have sp: "set (snd sg1) = {x. map_of s x = Some WHITE \<and> map_of (fst sg1) x = Some BLACK}"
    using frame_newpart(3)[OF f] post by simp
  have keep: "\<forall>x. map_of s x = Some BLACK \<longrightarrow> map_of (fst sg1) x = Some BLACK"
    using frame_black[OF f] by simp
  have cc: "concat ?groups1 = concat groups @ rev (snd sg1)" by simp
  have cr: "concat (rev ?groups1) = rev (snd sg1) @ concat (rev groups)" by simp
  have ng1: "\<forall>x. map_of (fst sg1) x \<noteq> Some GRAY" using frame_gray[OF f] ng by simp
  have bl1: "{x. map_of (fst sg1) x = Some BLACK} = set (concat ?groups1)"
  proof (intro set_eqI iffI)
    fix x assume "x \<in> {x. map_of (fst sg1) x = Some BLACK}"
    then have b: "map_of (fst sg1) x = Some BLACK" by simp
    show "x \<in> set (concat ?groups1)"
    proof (cases "map_of s x = Some WHITE")
      case True
      with b sp show ?thesis unfolding cc by simp
    next
      case False
      with f have "map_of (fst sg1) x = map_of s x" unfolding frame_def by simp
      with b bl show ?thesis unfolding cc by auto
    qed
  next
    fix x assume "x \<in> set (concat ?groups1)"
    then have "x \<in> set (concat groups) \<or> x \<in> set (snd sg1)" unfolding cc by simp
    then show "x \<in> {x. map_of (fst sg1) x = Some BLACK}"
      using bl keep sp by auto
  qed
  have dj: "set (concat groups) \<inter> set (snd sg1) = {}"
  proof (rule ccontr)
    assume "set (concat groups) \<inter> set (snd sg1) \<noteq> {}"
    then obtain x where x: "x \<in> set (concat groups)" "x \<in> set (snd sg1)" by blast
    from x(1) bl have "map_of s x = Some BLACK" by blast
    moreover from x(2) sp have "map_of s x = Some WHITE" by blast
    ultimately show False by simp
  qed
  have di1: "distinct (concat ?groups1)" unfolding cc using di dp dj by simp
  have cross: "\<forall>x \<in> set (rev (snd sg1)). \<forall>z \<in> set (concat (rev groups)). x \<notin> set (ch z)"
  proof (intro ballI)
    fix x z assume x: "x \<in> set (rev (snd sg1))" and z: "z \<in> set (concat (rev groups))"
    from z bl have "map_of s z = Some BLACK" by auto
    with cb have "\<forall>y \<in> set (ch z). map_of s y = Some BLACK" unfolding closed_black_def by blast
    moreover from x sp have "map_of s x = Some WHITE" by simp
    ultimately show "x \<notin> set (ch z)" by auto
  qed
  have tp1: "topo ch (concat (rev ?groups1))"
    unfolding cr topo_append using t1 tp cross by blast
  have ne1: "[] \<notin> set ?groups1" using ne by simp
  show "starts_inv ch (fst sg1) ?groups1"
    unfolding starts_inv_def using cb1 ng1 bl1 di1 tp1 ne1 by blast
  show "map_of (fst sg1) start = Some BLACK" by (rule sb)
  show "dom (map_of (fst sg1)) = dom (map_of s)" using frame_dom[OF f] by simp
  show "\<forall>x. map_of s x = Some BLACK \<longrightarrow> map_of (fst sg1) x = Some BLACK" by (rule keep)
qed

lemma DFS_starts_correct:
  assumes "acyclic (edges ch)"
  shows "(\<forall>x. set (ch x) \<subseteq> dom (map_of s)) \<Longrightarrow> set starts \<subseteq> dom (map_of s) \<Longrightarrow>
     starts_inv ch s groups \<Longrightarrow>
     \<exists>s' groups'. DFS_starts ch s groups starts = Inr (s', groups') \<and> starts_inv ch s' groups'
       \<and> dom (map_of s') = dom (map_of s)
       \<and> (\<forall>x. x \<in> set starts \<or> map_of s x = Some BLACK \<longrightarrow> map_of s' x = Some BLACK)"
proof (induction starts arbitrary: s groups)
  case Nil
  then show ?case by simp
next
  case (Cons start rest)
  have ng: "\<forall>x. map_of s x \<noteq> Some GRAY" using Cons.prems(3) unfolding starts_inv_def by blast
  have "\<exists>sg1. DFS ch (s, []) start = Inr sg1"
    using DFS_succeeds(1)[OF assms, of "(s, [])" start] Cons.prems(1,2) ng by simp
  then obtain sg1 where run: "DFS ch (s, []) start = Inr sg1" by blast
  let ?groups1 = "if snd sg1 \<noteq> [] then groups @ [rev (snd sg1)] else groups"
  note st = starts_inv_step[OF Cons.prems(3) run]
  have "\<exists>s' groups'. DFS_starts ch (fst sg1) ?groups1 rest = Inr (s', groups')
       \<and> starts_inv ch s' groups' \<and> dom (map_of s') = dom (map_of (fst sg1))
       \<and> (\<forall>x. x \<in> set rest \<or> map_of (fst sg1) x = Some BLACK \<longrightarrow> map_of s' x = Some BLACK)"
  proof (rule Cons.IH)
    show "\<forall>x. set (ch x) \<subseteq> dom (map_of (fst sg1))" using Cons.prems(1) st(3) by simp
    show "set rest \<subseteq> dom (map_of (fst sg1))" using Cons.prems(2) st(3) by simp
    show "starts_inv ch (fst sg1) ?groups1" by (rule st(1))
  qed
  then obtain s' groups' where
    r: "DFS_starts ch (fst sg1) ?groups1 rest = Inr (s', groups')"
    and i: "starts_inv ch s' groups'" and d: "dom (map_of s') = dom (map_of (fst sg1))"
    and b: "\<forall>x. x \<in> set rest \<or> map_of (fst sg1) x = Some BLACK \<longrightarrow> map_of s' x = Some BLACK"
    by blast
  have "DFS_starts ch s groups (start # rest) = Inr (s', groups')" using run r by simp
  moreover have "dom (map_of s') = dom (map_of s)" using d st(3) by simp
  moreover have "\<forall>x. x \<in> set (start # rest) \<or> map_of s x = Some BLACK
      \<longrightarrow> map_of s' x = Some BLACK"
    using b st(2,4) by auto
  ultimately show ?case using i by blast
qed

subsection \<open>The grouping pass\<close>

text \<open>
  One round of the loop \<^verbatim>\<open>while groups\<close> takes from every deque its longest prefix of ready
  callbacks. Under \<open>group_inv\<close> the first callback of the last deque is ready, so every
  round takes at least one callback and the loop ends.
\<close>

lemma ready_total:
  "set ps \<subseteq> dom (map_of s) \<Longrightarrow> ready s ps = Inr (\<forall>p \<in> set ps. map_of s p \<noteq> Some BLACK)"
  by (induction ps) auto

lemma scan_group_total:
  "(\<forall>c \<in> set q. set (pa c) \<subseteq> dom (map_of s)) \<Longrightarrow>
     scan_group pa s pg q
       = Inr (pg @ takeWhile (is_ready pa s) q, dropWhile (is_ready pa s) q)"
proof (induction q arbitrary: pg)
  case Nil
  show ?case by simp
next
  case (Cons c q)
  have r: "ready s (pa c) = Inr (is_ready pa s c)"
    using ready_total[of "pa c" s] Cons.prems by (simp add: is_ready_def)
  show ?case
  proof (cases "is_ready pa s c")
    case True
    with r Cons show ?thesis by simp
  next
    case False
    with r show ?thesis by simp
  qed
qed

lemma scan_groups_total:
  "(\<forall>c \<in> set (concat groups). set (pa c) \<subseteq> dom (map_of s)) \<Longrightarrow>
     scan_groups pa s pg groups
       = Inr (pg @ concat (map (takeWhile (is_ready pa s)) groups),
              map (dropWhile (is_ready pa s)) groups)"
proof (induction groups arbitrary: pg)
  case Nil
  show ?case by simp
next
  case (Cons q groups)
  have 1: "scan_group pa s pg q
       = Inr (pg @ takeWhile (is_ready pa s) q, dropWhile (is_ready pa s) q)"
    by (rule scan_group_total) (use Cons.prems in simp)
  have 2: "scan_groups pa s (pg @ takeWhile (is_ready pa s) q) groups
       = Inr ((pg @ takeWhile (is_ready pa s) q) @ concat (map (takeWhile (is_ready pa s)) groups),
              map (dropWhile (is_ready pa s)) groups)"
    by (rule Cons.IH) (use Cons.prems in simp)
  show ?case using 1 2 by simp
qed

lemma map_of_mark_completed:
  "map_of (mark_completed pg s) x = (if x \<in> set pg then Some WHITE else map_of s x)"
  by (induction pg arbitrary: s) (auto simp: update_conv')

lemma concat_filter_nonempty: "concat (filter (\<lambda>g. g \<noteq> []) gs) = concat gs"
  by (induction gs) auto

lemma mset_take_drop_groups:
  "mset (concat (map (takeWhile P) gs)) + mset (concat (map (dropWhile P) gs))
     = mset (concat gs)"
proof (induction gs)
  case Nil
  show ?case by simp
next
  case (Cons g gs)
  have "mset (takeWhile P g) + mset (dropWhile P g) = mset g"
    by (metis mset_append takeWhile_dropWhile_id)
  with Cons show ?case by (simp add: ac_simps)
qed

lemma topo_subseq: "subseq xs ys \<Longrightarrow> topo ch ys \<Longrightarrow> topo ch xs"
proof (induction rule: list_emb.induct)
  case (list_emb_Nil ys)
  show ?case by simp
next
  case (list_emb_Cons xs ys y)
  then show ?case by simp
next
  case (list_emb_Cons2 x y xs ys)
  from list_emb_Cons2.hyps(2) have "set xs \<subseteq> set ys" by (rule list_emb_set[THEN subsetI]) auto
  with list_emb_Cons2 show ?case by auto
qed

lemma subseq_dropWhile_groups:
  "subseq (concat (rev (map (dropWhile P) gs))) (concat (rev gs))"
proof (induction gs)
  case Nil
  show ?case by simp
next
  case (Cons g gs)
  have "subseq (dropWhile P g) g" by (rule suffix_imp_subseq[OF suffix_dropWhile])
  with Cons show ?case by (simp add: list_emb_append_mono)
qed

lemma grouping_round:
  assumes inv: "group_inv ch pa s groups"
    and sym: "\<forall>c p. p \<in> set (pa c) \<longleftrightarrow> c \<in> set (ch p)"
    and ne: "groups \<noteq> []"
    and pg: "pg = concat (map (takeWhile (is_ready pa s)) groups)"
    and rest: "rest = filter (\<lambda>g. g \<noteq> []) (map (dropWhile (is_ready pa s)) groups)"
  shows "pg \<noteq> []"
    and "group_inv ch pa (mark_completed pg s) rest"
    and "mset pg + mset (concat rest) = mset (concat groups)"
    and "\<forall>c \<in> set pg. set (pa c) \<inter> set (concat groups) = {}"
proof -
  from inv have nempty: "[] \<notin> set groups" and di: "distinct (concat groups)"
    and tp: "topo ch (concat (rev groups))"
    and bl: "\<forall>x. map_of s x = Some BLACK \<longleftrightarrow> x \<in> set (concat groups)"
    and dm: "\<forall>c \<in> set (concat groups). set (pa c) \<subseteq> dom (map_of s)"
    unfolding group_inv_def by blast+
  have crest: "concat rest = concat (map (dropWhile (is_ready pa s)) groups)"
    unfolding rest by (rule concat_filter_nonempty)
  show ms: "mset pg + mset (concat rest) = mset (concat groups)"
    unfolding crest pg by (rule mset_take_drop_groups)
  then have ms': "mset (pg @ concat rest) = mset (concat groups)" by simp
  have dall: "distinct (pg @ concat rest)"
    using mset_eq_imp_distinct_iff[OF ms'] di by simp
  have sall: "set pg \<union> set (concat rest) = set (concat groups)"
    using mset_eq_setD[OF ms'] by simp
  show d: "\<forall>c \<in> set pg. set (pa c) \<inter> set (concat groups) = {}"
  proof
    fix c assume "c \<in> set pg"
    then obtain g where "g \<in> set groups" "c \<in> set (takeWhile (is_ready pa s) g)"
      unfolding pg by auto
    then have "is_ready pa s c" by (auto dest: set_takeWhileD)
    then show "set (pa c) \<inter> set (concat groups) = {}"
      unfolding is_ready_def using bl by blast
  qed
  show "pg \<noteq> []"
  proof -
    from ne have g: "groups = butlast groups @ [last groups]" by simp
    from ne nempty have ln: "last groups \<noteq> []" using last_in_set by metis
    then obtain c0 q where lq: "last groups = c0 # q" by (cases "last groups") auto
    have "concat (rev groups) = last groups @ concat (rev (butlast groups))"
      by (subst g) simp
    then have cr: "concat (rev groups) = c0 # (q @ concat (rev (butlast groups)))"
      using lq by simp
    from tp have "\<forall>z \<in> set (concat (rev groups)). c0 \<notin> set (ch z)"
      unfolding cr by simp
    then have nz: "\<forall>z \<in> set (concat groups). c0 \<notin> set (ch z)" by simp
    have "is_ready pa s c0"
      unfolding is_ready_def
    proof
      fix p assume "p \<in> set (pa c0)"
      with sym have "c0 \<in> set (ch p)" by blast
      with nz have "p \<notin> set (concat groups)" by blast
      with bl show "map_of s p \<noteq> Some BLACK" by blast
    qed
    then have "c0 \<in> set (takeWhile (is_ready pa s) (last groups))" using lq by simp
    moreover have "last groups \<in> set groups" using ne by simp
    ultimately have "c0 \<in> set pg" unfolding pg by auto
    then show ?thesis by auto
  qed
  show "group_inv ch pa (mark_completed pg s) rest"
    unfolding group_inv_def
  proof (intro conjI)
    show "[] \<notin> set rest" unfolding rest by simp
    show "distinct (concat rest)" using dall by simp
    have "concat (rev rest) = concat (rev (map (dropWhile (is_ready pa s)) groups))"
      unfolding rest by (simp add: rev_filter concat_filter_nonempty)
    then show "topo ch (concat (rev rest))"
      using topo_subseq[OF subseq_dropWhile_groups tp] by simp
    show "\<forall>x. (map_of (mark_completed pg s) x = Some BLACK) = (x \<in> set (concat rest))"
    proof
      fix x
      show "(map_of (mark_completed pg s) x = Some BLACK) = (x \<in> set (concat rest))"
      proof (cases "x \<in> set pg")
        case True
        with dall have "x \<notin> set (concat rest)" by auto
        with True show ?thesis by (simp add: map_of_mark_completed)
      next
        case False
        with sall have "x \<in> set (concat rest) \<longleftrightarrow> x \<in> set (concat groups)" by blast
        with False bl show ?thesis by (simp add: map_of_mark_completed)
      qed
    qed
    show "\<forall>c\<in>set (concat rest). set (pa c) \<subseteq> dom (map_of (mark_completed pg s))"
    proof
      fix c assume "c \<in> set (concat rest)"
      with sall have "c \<in> set (concat groups)" by blast
      with dm have "set (pa c) \<subseteq> dom (map_of s)" by blast
      moreover have "dom (map_of s) \<subseteq> dom (map_of (mark_completed pg s))"
        by (auto simp: map_of_mark_completed)
      ultimately show "set (pa c) \<subseteq> dom (map_of (mark_completed pg s))" by blast
    qed
  qed
qed

lemma grouping_correct:
  assumes sym: "\<forall>c p. p \<in> set (pa c) \<longleftrightarrow> c \<in> set (ch p)"
  shows "group_inv ch pa s groups \<Longrightarrow>
     \<exists>pgs. grouping pa s groups acc = Some (Inr (acc @ pgs)) \<and> staged pa pgs
       \<and> mset (concat pgs) = mset (concat groups) \<and> [] \<notin> set pgs"
proof (induction "length (concat groups)" arbitrary: s groups acc rule: less_induct)
  case less
  show ?case
  proof (cases "groups = []")
    case True
    then have "grouping pa s groups acc = Some (Inr (acc @ []))"
      by (simp add: grouping.simps)
    with True show ?thesis by (intro exI[of _ "[]"]) simp
  next
    case False
    let ?pg = "concat (map (takeWhile (is_ready pa s)) groups)"
    let ?rest = "filter (\<lambda>g. g \<noteq> []) (map (dropWhile (is_ready pa s)) groups)"
    note rd = grouping_round[OF less.prems sym False refl refl]
    from less.prems have dm: "\<forall>c \<in> set (concat groups). set (pa c) \<subseteq> dom (map_of s)"
      unfolding group_inv_def by blast
    have sc: "scan_groups pa s [] groups
       = Inr (?pg, map (dropWhile (is_ready pa s)) groups)"
      using scan_groups_total[OF dm, of "[]"] by simp
    have step: "grouping pa s groups acc
       = grouping pa (mark_completed ?pg s) ?rest (acc @ [?pg])"
      using False sc by (subst grouping.simps) simp
    have "size (mset ?pg) + size (mset (concat ?rest)) = size (mset (concat groups))"
      using rd(3) by (metis size_union)
    with rd(1) have lt: "length (concat ?rest) < length (concat groups)"
      by (cases ?pg) auto
    from less.hyps[OF lt rd(2), of "acc @ [?pg]"] obtain pgs where
      g: "grouping pa (mark_completed ?pg s) ?rest (acc @ [?pg]) = Some (Inr ((acc @ [?pg]) @ pgs))"
      and st: "staged pa pgs" and ms: "mset (concat pgs) = mset (concat ?rest)"
      and ne: "[] \<notin> set pgs"
      by blast
    have m2: "mset (concat (?pg # pgs)) = mset (concat groups)"
      using ms rd(3) by simp
    have "set (concat (?pg # pgs)) = set (concat groups)"
      by (rule mset_eq_setD[OF m2])
    with rd(4) st have "staged pa (?pg # pgs)" by simp
    moreover have "grouping pa s groups acc = Some (Inr (acc @ (?pg # pgs)))"
      using step g by simp
    moreover have "[] \<notin> set (?pg # pgs)" using ne rd(1) by auto
    ultimately show ?thesis using m2 by blast
  qed
qed

subsection \<open>The first pass and the root\<close>

text \<open>
  On a valid constraint set the first pass raises nothing and keeps \<open>pass_inv\<close>; the
  lemmas \<open>sched_\<dots>\<close> read off what the search and the grouping pass start from.
\<close>

lemma set_set_add: "set (set_add x xs) = insert x (set xs)"
  by (auto simp: set_add_def)

lemma set_set_union: "set (set_union xs ys) = set xs \<union> set ys"
  by (induction ys arbitrary: xs) (auto simp: set_set_add)

lemma set_add_children:
  "set (add_children c ps ch x) = set (ch x) \<union> (if x \<in> set ps then {c} else {})"
  by (induction ps arbitrary: ch) (auto simp: set_set_add)

lemma pass_inv_init: "pass_inv [] sched_init"
  by (simp add: pass_inv_def sched_init_def)

lemma pass_step_root:
  assumes inv: "pass_inv seen st"
    and b: "before_all opts" and ok: "entry_ok opts"
    and one: "length (filter (\<lambda>e. before_all (snd e)) (seen @ [(c, opts)])) \<le> 1"
  shows "\<exists>st1. process_entry it st (c, opts) = Inr st1 \<and> pass_inv (seen @ [(c, opts)]) st1"
proof -
  from b ok have na: "\<not> after_all opts" and ra: "run_after opts = RA_None"
    unfolding entry_ok_def by auto
  from one b have f: "filter (\<lambda>e. before_all (snd e)) seen = []" by simp
  with inv have r: "root st = None" unfolding pass_inv_def by simp
  let ?st1 = "st\<lparr> root := Some c, searched := AList.update c WHITE (searched st) \<rparr>"
  have p: "process_entry it st (c, opts) = Inr ?st1"
    using b na ra r by (simp add: process_entry_def)
  have "pass_inv (seen @ [(c, opts)]) ?st1"
    using inv b na ra f unfolding pass_inv_def
    by (auto simp: update_conv' is_node_def)
  with p show ?thesis by blast
qed

lemma pass_step_last:
  assumes inv: "pass_inv seen st"
    and a: "after_all opts" and ok: "entry_ok opts"
    and one: "length (filter (\<lambda>e. after_all (snd e)) (seen @ [(c, opts)])) \<le> 1"
  shows "\<exists>st1. process_entry it st (c, opts) = Inr st1 \<and> pass_inv (seen @ [(c, opts)]) st1"
proof -
  from a ok have nb: "\<not> before_all opts" and ra: "run_after opts = RA_None"
    unfolding entry_ok_def by auto
  from one a have f: "filter (\<lambda>e. after_all (snd e)) seen = []" by simp
  with inv have r: "last_cb st = None" unfolding pass_inv_def by simp
  let ?st1 = "st\<lparr> last_cb := Some c \<rparr>"
  have p: "process_entry it st (c, opts) = Inr ?st1"
    using a nb r by (simp add: process_entry_def)
  have "pass_inv (seen @ [(c, opts)]) ?st1"
    using inv a nb ra f unfolding pass_inv_def
    by (auto simp: is_node_def)
  with p show ?thesis by blast
qed

lemma pass_step_node:
  assumes inv: "pass_inv seen st"
    and nb: "\<not> before_all opts" and na: "\<not> after_all opts" and ok: "entry_ok opts"
    and it: "\<forall>xs. set (it xs) = set xs"
  shows "\<exists>st1. process_entry it st (c, opts) = Inr st1 \<and> pass_inv (seen @ [(c, opts)]) st1"
proof -
  from inv have
    i1: "root st = (case filter (\<lambda>e. before_all (snd e)) seen of [] \<Rightarrow> None | e # _ \<Rightarrow> Some (fst e))"
    and i2: "last_cb st = (case filter (\<lambda>e. after_all (snd e)) seen of [] \<Rightarrow> None | e # _ \<Rightarrow> Some (fst e))"
    and i3: "\<forall>c. set (parents st c)
          = {p. \<exists>opts. (c, opts) \<in> set seen \<and> is_node opts
                 \<and> p \<in> set (declared_parents (run_after opts))}"
    and i4: "\<forall>p c. c \<in> set (children st p) \<longleftrightarrow> p \<in> set (parents st c)"
    and i5: "\<forall>x. map_of (searched st) x
          = (if \<exists>opts. (x, opts) \<in> set seen \<and> \<not> after_all opts then Some WHITE else None)"
    and i6: "search_starts st
       = map fst (filter (\<lambda>e. is_node (snd e) \<and> run_after (snd e) = RA_None) seen)"
    unfolding pass_inv_def by blast+
  have node: "is_node opts" using nb na by (simp add: is_node_def)
  have f1: "filter (\<lambda>e. before_all (snd e)) (seen @ [(c, opts)]) = filter (\<lambda>e. before_all (snd e)) seen"
    using nb by simp
  have f2: "filter (\<lambda>e. after_all (snd e)) (seen @ [(c, opts)]) = filter (\<lambda>e. after_all (snd e)) seen"
    using na by simp
  have s5: "\<And>st1. searched st1 = AList.update c WHITE (searched st) \<Longrightarrow>
      \<forall>x. map_of (searched st1) x
          = (if \<exists>ob. (x, ob) \<in> set (seen @ [(c, opts)]) \<and> \<not> after_all ob then Some WHITE else None)"
    using i5 na by (auto simp: update_conv')
  show ?thesis
  proof (cases "run_after opts")
    case RA_None
    let ?st1 = "st\<lparr> search_starts := search_starts st @ [c],
                    searched := AList.update c WHITE (searched st) \<rparr>"
    have p: "process_entry it st (c, opts) = Inr ?st1"
      using nb na RA_None by (simp add: process_entry_def)
    have "pass_inv (seen @ [(c, opts)]) ?st1"
      unfolding pass_inv_def
    proof (intro conjI)
      show "root ?st1 = (case filter (\<lambda>e. before_all (snd e)) (seen @ [(c, opts)]) of
          [] \<Rightarrow> None | e # _ \<Rightarrow> Some (fst e))" unfolding f1 using i1 by simp
      show "last_cb ?st1 = (case filter (\<lambda>e. after_all (snd e)) (seen @ [(c, opts)]) of
          [] \<Rightarrow> None | e # _ \<Rightarrow> Some (fst e))" unfolding f2 using i2 by simp
      show "\<forall>ca. set (parents ?st1 ca)
          = {p. \<exists>ob. (ca, ob) \<in> set (seen @ [(c, opts)]) \<and> is_node ob
                 \<and> p \<in> set (declared_parents (run_after ob))}"
        using i3 RA_None by auto
      show "\<forall>p ca. (ca \<in> set (children ?st1 p)) = (p \<in> set (parents ?st1 ca))"
        using i4 by simp
      show "\<forall>x. map_of (searched ?st1) x
          = (if \<exists>ob. (x, ob) \<in> set (seen @ [(c, opts)]) \<and> \<not> after_all ob then Some WHITE else None)"
        by (rule s5) simp
      show "search_starts ?st1
          = map fst (filter (\<lambda>e. is_node (snd e) \<and> run_after (snd e) = RA_None) (seen @ [(c, opts)]))"
        using i6 node RA_None by simp
    qed
    with p show ?thesis by blast
  next
    case (RA_Function parent)
    let ?st1 = "st\<lparr> children := (children st)(parent := set_add c (children st parent)),
                    parents := (parents st)(c := set_add parent (parents st c)),
                    searched := AList.update c WHITE (searched st) \<rparr>"
    have p: "process_entry it st (c, opts) = Inr ?st1"
      using nb na RA_Function by (simp add: process_entry_def)
    have "pass_inv (seen @ [(c, opts)]) ?st1"
      unfolding pass_inv_def
    proof (intro conjI)
      show "root ?st1 = (case filter (\<lambda>e. before_all (snd e)) (seen @ [(c, opts)]) of
          [] \<Rightarrow> None | e # _ \<Rightarrow> Some (fst e))" unfolding f1 using i1 by simp
      show "last_cb ?st1 = (case filter (\<lambda>e. after_all (snd e)) (seen @ [(c, opts)]) of
          [] \<Rightarrow> None | e # _ \<Rightarrow> Some (fst e))" unfolding f2 using i2 by simp
      show "\<forall>ca. set (parents ?st1 ca)
          = {p. \<exists>ob. (ca, ob) \<in> set (seen @ [(c, opts)]) \<and> is_node ob
                 \<and> p \<in> set (declared_parents (run_after ob))}"
        using i3 RA_Function node by (auto simp: set_set_add)
      show "\<forall>p ca. (ca \<in> set (children ?st1 p)) = (p \<in> set (parents ?st1 ca))"
        using i4 by (auto simp: set_set_add)
      show "\<forall>x. map_of (searched ?st1) x
          = (if \<exists>ob. (x, ob) \<in> set (seen @ [(c, opts)]) \<and> \<not> after_all ob then Some WHITE else None)"
        by (rule s5) simp
      show "search_starts ?st1
          = map fst (filter (\<lambda>e. is_node (snd e) \<and> run_after (snd e) = RA_None) (seen @ [(c, opts)]))"
        using i6 RA_Function by simp
    qed
    with p show ?thesis by blast
  next
    case (RA_Iterable ps)
    let ?ps' = "set_union (parents st c) ps"
    let ?st1 = "st\<lparr> children := add_children c (it ?ps') (children st),
                    parents := (parents st)(c := ?ps'),
                    searched := AList.update c WHITE (searched st) \<rparr>"
    have p: "process_entry it st (c, opts) = Inr ?st1"
      using nb na RA_Iterable by (simp add: process_entry_def Let_def)
    have "pass_inv (seen @ [(c, opts)]) ?st1"
      unfolding pass_inv_def
    proof (intro conjI)
      show "root ?st1 = (case filter (\<lambda>e. before_all (snd e)) (seen @ [(c, opts)]) of
          [] \<Rightarrow> None | e # _ \<Rightarrow> Some (fst e))" unfolding f1 using i1 by simp
      show "last_cb ?st1 = (case filter (\<lambda>e. after_all (snd e)) (seen @ [(c, opts)]) of
          [] \<Rightarrow> None | e # _ \<Rightarrow> Some (fst e))" unfolding f2 using i2 by simp
      show "\<forall>ca. set (parents ?st1 ca)
          = {p. \<exists>ob. (ca, ob) \<in> set (seen @ [(c, opts)]) \<and> is_node ob
                 \<and> p \<in> set (declared_parents (run_after ob))}"
        using i3 RA_Iterable node by (auto simp: set_set_union)
      show "\<forall>p ca. (ca \<in> set (children ?st1 p)) = (p \<in> set (parents ?st1 ca))"
        using i4 it by (auto simp: set_add_children set_set_union)
      show "\<forall>x. map_of (searched ?st1) x
          = (if \<exists>ob. (x, ob) \<in> set (seen @ [(c, opts)]) \<and> \<not> after_all ob then Some WHITE else None)"
        by (rule s5) simp
      show "search_starts ?st1
          = map fst (filter (\<lambda>e. is_node (snd e) \<and> run_after (snd e) = RA_None) (seen @ [(c, opts)]))"
        using i6 RA_Iterable by simp
    qed
    with p show ?thesis by blast
  next
    case (RA_Other t)
    with ok show ?thesis unfolding entry_ok_def by blast
  qed
qed

lemma first_pass_correct:
  assumes it: "\<forall>xs. set (it xs) = set xs"
  shows "pass_inv seen st \<Longrightarrow> \<forall>e \<in> set rest. entry_ok (snd e) \<Longrightarrow>
     length (filter (\<lambda>e. before_all (snd e)) (seen @ rest)) \<le> 1 \<Longrightarrow>
     length (filter (\<lambda>e. after_all (snd e)) (seen @ rest)) \<le> 1 \<Longrightarrow>
     \<exists>st'. first_pass it st rest = Inr st' \<and> pass_inv (seen @ rest) st'"
proof (induction rest arbitrary: seen st)
  case Nil
  then show ?case by simp
next
  case (Cons e rest)
  obtain c opts where e: "e = (c, opts)" by (cases e)
  have ok: "entry_ok opts" using Cons.prems(2) e by simp
  have b1: "length (filter (\<lambda>e. before_all (snd e)) (seen @ [(c, opts)])) \<le> 1"
    using Cons.prems(3) e by (auto split: if_splits)
  have a1: "length (filter (\<lambda>e. after_all (snd e)) (seen @ [(c, opts)])) \<le> 1"
    using Cons.prems(4) e by (auto split: if_splits)
  have "\<exists>st1. process_entry it st (c, opts) = Inr st1 \<and> pass_inv (seen @ [(c, opts)]) st1"
  proof (cases "before_all opts")
    case True
    from pass_step_root[OF Cons.prems(1) True ok b1] show ?thesis .
  next
    case nb: False
    show ?thesis
    proof (cases "after_all opts")
      case True
      from pass_step_last[OF Cons.prems(1) True ok a1] show ?thesis .
    next
      case False
      from pass_step_node[OF Cons.prems(1) nb False ok it] show ?thesis .
    qed
  qed
  then obtain st1 where p: "process_entry it st (c, opts) = Inr st1"
    and i: "pass_inv (seen @ [(c, opts)]) st1" by blast
  have "\<exists>st'. first_pass it st1 rest = Inr st' \<and> pass_inv ((seen @ [(c, opts)]) @ rest) st'"
  proof (rule Cons.IH[OF i])
    show "\<forall>e\<in>set rest. entry_ok (snd e)" using Cons.prems(2) by simp
    show "length (filter (\<lambda>e. before_all (snd e)) ((seen @ [(c, opts)]) @ rest)) \<le> 1"
      using Cons.prems(3) e by simp
    show "length (filter (\<lambda>e. after_all (snd e)) ((seen @ [(c, opts)]) @ rest)) \<le> 1"
      using Cons.prems(4) e by simp
  qed
  with p e show ?case by simp
qed

lemma bind_children_fields:
  "root (bind_children r cs st) = root st"
  "last_cb (bind_children r cs st) = last_cb st"
  "searched (bind_children r cs st) = searched st"
  "search_starts (bind_children r cs st) = search_starts st"
  by (induction cs arbitrary: st) auto

lemma bind_children_parents:
  "set (parents (bind_children r cs st) c) = set (parents st c) \<union> (if c \<in> set cs then {r} else {})"
  by (induction cs arbitrary: st) (auto simp: set_set_add)

lemma bind_children_children:
  "set (children (bind_children r cs st) p) = set (children st p) \<union> (if p = r then set cs else {})"
  by (induction cs arbitrary: st) (auto simp: set_set_add)

lemma deal_with_root_fields:
  "last_cb (deal_with_root st) = last_cb st"
  "searched (deal_with_root st) = searched st"
  "search_starts (deal_with_root st) = (case root st of None \<Rightarrow> search_starts st | Some r \<Rightarrow> [r])"
  by (auto simp: deal_with_root_def bind_children_fields split: option.splits)

lemma deal_with_root_parents:
  "set (parents (deal_with_root st) c)
     = set (parents st c) \<union> {r. root st = Some r \<and> c \<in> set (search_starts st)}"
  by (auto simp: deal_with_root_def bind_children_parents split: option.splits if_splits)

lemma deal_with_root_children:
  "set (children (deal_with_root st) p)
     = set (children st p) \<union> {c. root st = Some p \<and> c \<in> set (search_starts st)}"
  by (auto simp: deal_with_root_def bind_children_children split: option.splits if_splits)

lemma acyclic_add_source:
  assumes a: "acyclic A" and r: "r \<notin> Range (A \<union> B)" and b: "\<forall>(x, y) \<in> B. x = r"
  shows "acyclic (A \<union> B)"
proof -
  have step: "(x, y) \<in> (A \<union> B)\<^sup>+ \<Longrightarrow> x \<noteq> r \<Longrightarrow> (x, y) \<in> A\<^sup>+" for x y
  proof (induction rule: trancl_induct)
    case (base y)
    with b show ?case by auto
  next
    case (step y z)
    from step.IH[OF step.prems] have xy: "(x, y) \<in> A\<^sup>+" .
    then have "y \<in> Range A" by (metis Range_iff tranclD2)
    with r have "y \<noteq> r" by auto
    with step.hyps(2) b have "(y, z) \<in> A" by auto
    with xy show ?case by (rule trancl_into_trancl)
  qed
  show ?thesis
    unfolding acyclic_def
  proof (intro allI notI)
    fix x assume c: "(x, x) \<in> (A \<union> B)\<^sup>+"
    then have "x \<in> Range (A \<union> B)" by (metis Range_iff tranclD2)
    with r have "x \<noteq> r" by auto
    from step[OF c this] a show False by (simp add: acyclic_def)
  qed
qed

lemma staged_earlier:
  "staged pa pgs \<Longrightarrow> i < length pgs \<Longrightarrow> c \<in> set (pgs ! i) \<Longrightarrow> p \<in> set (pa c) \<Longrightarrow>
     p \<in> set (concat pgs) \<Longrightarrow> \<exists>j < i. p \<in> set (pgs ! j)"
proof (induction pgs arbitrary: i)
  case Nil
  then show ?case by simp
next
  case (Cons g gs)
  show ?case
  proof (cases i)
    case 0
    with Cons.prems show ?thesis by auto
  next
    case (Suc k)
    show ?thesis
    proof (cases "p \<in> set g")
      case True
      then show ?thesis using Suc by (intro exI[of _ 0]) simp
    next
      case False
      with Cons.prems(5) have "p \<in> set (concat gs)" by simp
      with Cons.IH[of k] Cons.prems Suc obtain j where "j < k" "p \<in> set (gs ! j)" by auto
      then show ?thesis using Suc by (intro exI[of _ "Suc j"]) simp
    qed
  qed
qed

lemma unique_entry:
  "distinct (map fst input) \<Longrightarrow> (c, o1) \<in> set input \<Longrightarrow> (c, o2) \<in> set input \<Longrightarrow> o1 = o2"
  by (metis map_of_is_SomeI option.inject)

lemma filter_le1:
  assumes "length (filter P xs) \<le> 1" "e \<in> set xs" "P e"
  shows "filter P xs = [e]"
proof -
  from assms(2,3) have m: "e \<in> set (filter P xs)" by simp
  then obtain y ys where f: "filter P xs = y # ys" by (cases "filter P xs") auto
  with assms(1) have "ys = []" by simp
  with f m show ?thesis by simp
qed

lemma first_pass_valid:
  assumes v: "valid_constraints input" and it: "\<forall>xs. set (it xs) = set xs"
  shows "\<exists>st0. first_pass it sched_init input = Inr st0 \<and> pass_inv input st0"
  using first_pass_correct[OF it pass_inv_init, of input] v
  unfolding valid_constraints_def by simp

text \<open>Facts about the state after the first pass and the binding of the root.\<close>

lemma sched_root:
  assumes v: "valid_constraints input" and inv: "pass_inv input st0"
  shows "root st0 = Some r \<longleftrightarrow> (\<exists>opts. (r, opts) \<in> set input \<and> before_all opts)"
proof
  assume "root st0 = Some r"
  with inv obtain e es where f: "filter (\<lambda>e. before_all (snd e)) input = e # es" "fst e = r"
    unfolding pass_inv_def by (auto split: list.splits)
  then have "e \<in> set (filter (\<lambda>e. before_all (snd e)) input)" by simp
  then have "e \<in> set input" "before_all (snd e)" by auto
  with f(2) show "\<exists>opts. (r, opts) \<in> set input \<and> before_all opts"
    by (intro exI[of _ "snd e"]) auto
next
  assume "\<exists>opts. (r, opts) \<in> set input \<and> before_all opts"
  then obtain opts where e: "(r, opts) \<in> set input" "before_all opts" by blast
  from v have "length (filter (\<lambda>e. before_all (snd e)) input) \<le> 1"
    unfolding valid_constraints_def by blast
  from filter_le1[OF this e(1)] e(2)
  have "filter (\<lambda>e. before_all (snd e)) input = [(r, opts)]" by simp
  with inv show "root st0 = Some r" unfolding pass_inv_def by simp
qed

lemma sched_last:
  assumes v: "valid_constraints input" and inv: "pass_inv input st0"
  shows "last_cb st0 = Some l \<longleftrightarrow> (\<exists>opts. (l, opts) \<in> set input \<and> after_all opts)"
proof
  assume "last_cb st0 = Some l"
  with inv obtain e es where f: "filter (\<lambda>e. after_all (snd e)) input = e # es" "fst e = l"
    unfolding pass_inv_def by (auto split: list.splits)
  then have "e \<in> set (filter (\<lambda>e. after_all (snd e)) input)" by simp
  then have "e \<in> set input" "after_all (snd e)" by auto
  with f(2) show "\<exists>opts. (l, opts) \<in> set input \<and> after_all opts"
    by (intro exI[of _ "snd e"]) auto
next
  assume "\<exists>opts. (l, opts) \<in> set input \<and> after_all opts"
  then obtain opts where e: "(l, opts) \<in> set input" "after_all opts" by blast
  from v have "length (filter (\<lambda>e. after_all (snd e)) input) \<le> 1"
    unfolding valid_constraints_def by blast
  from filter_le1[OF this e(1)] e(2)
  have "filter (\<lambda>e. after_all (snd e)) input = [(l, opts)]" by simp
  with inv show "last_cb st0 = Some l" unfolding pass_inv_def by simp
qed

lemma sched_parents:
  assumes inv: "pass_inv input st0"
  shows "set (parents (deal_with_root st0) c)
     = {p. \<exists>opts. (c, opts) \<in> set input \<and> is_node opts
             \<and> p \<in> set (declared_parents (run_after opts))}
       \<union> {r. root st0 = Some r
             \<and> (\<exists>opts. (c, opts) \<in> set input \<and> is_node opts \<and> run_after opts = RA_None)}"
proof -
  from inv have p: "set (parents st0 c)
      = {p. \<exists>opts. (c, opts) \<in> set input \<and> is_node opts
             \<and> p \<in> set (declared_parents (run_after opts))}"
    and s: "search_starts st0
       = map fst (filter (\<lambda>e. is_node (snd e) \<and> run_after (snd e) = RA_None) input)"
    unfolding pass_inv_def by blast+
  have "c \<in> set (search_starts st0)
      \<longleftrightarrow> (\<exists>opts. (c, opts) \<in> set input \<and> is_node opts \<and> run_after opts = RA_None)"
    unfolding s by force
  then show ?thesis unfolding deal_with_root_parents p by simp
qed

lemma sched_sym:
  assumes inv: "pass_inv input st0"
  shows "c \<in> set (children (deal_with_root st0) p) \<longleftrightarrow> p \<in> set (parents (deal_with_root st0) c)"
proof -
  from inv have "c \<in> set (children st0 p) \<longleftrightarrow> p \<in> set (parents st0 c)"
    unfolding pass_inv_def by blast
  then show ?thesis unfolding deal_with_root_parents deal_with_root_children by auto
qed

lemma sched_searched:
  assumes inv: "pass_inv input st0"
  shows "map_of (searched (deal_with_root st0)) x
     = (if x \<in> graph_nodes input then Some WHITE else None)"
  using inv unfolding pass_inv_def deal_with_root_fields graph_nodes_def by simp

lemma sched_parents_in_nodes:
  assumes v: "valid_constraints input" and inv: "pass_inv input st0"
    and p: "p \<in> set (parents (deal_with_root st0) c)"
  shows "p \<in> graph_nodes input" "c \<in> graph_nodes input"
    "\<exists>opts. (c, opts) \<in> set input \<and> is_node opts"
proof -
  from p obtain opts where c: "(c, opts) \<in> set input" "is_node opts"
    and d: "p \<in> set (declared_parents (run_after opts)) \<or> root st0 = Some p"
    unfolding sched_parents[OF inv] by blast
  from c show "\<exists>opts. (c, opts) \<in> set input \<and> is_node opts" by blast
  from c show "c \<in> graph_nodes input" unfolding graph_nodes_def is_node_def by blast
  from d show "p \<in> graph_nodes input"
  proof
    assume "p \<in> set (declared_parents (run_after opts))"
    with v c(1) show ?thesis unfolding valid_constraints_def graph_nodes_def by fastforce
  next
    assume "root st0 = Some p"
    then obtain po where po: "(p, po) \<in> set input" "before_all po"
      using sched_root[OF v inv] by blast
    with v have "\<not> after_all po" unfolding valid_constraints_def entry_ok_def by fastforce
    with po show ?thesis unfolding graph_nodes_def by blast
  qed
qed

lemma sched_starts:
  assumes v: "valid_constraints input" and inv: "pass_inv input st0"
  shows "set (search_starts (deal_with_root st0)) \<subseteq> graph_nodes input"
proof (cases "root st0")
  case None
  from inv have "search_starts st0
       = map fst (filter (\<lambda>e. is_node (snd e) \<and> run_after (snd e) = RA_None) input)"
    unfolding pass_inv_def by blast
  then have "set (search_starts st0) \<subseteq> graph_nodes input"
    unfolding graph_nodes_def is_node_def by auto
  with None show ?thesis by (simp add: deal_with_root_fields)
next
  case (Some r)
  then obtain po where po: "(r, po) \<in> set input" "before_all po"
    using sched_root[OF v inv] by blast
  with v have "\<not> after_all po" unfolding valid_constraints_def entry_ok_def by fastforce
  with po have "r \<in> graph_nodes input" unfolding graph_nodes_def by blast
  with Some show ?thesis by (simp add: deal_with_root_fields)
qed

lemma sched_start_or_parent:
  assumes v: "valid_constraints input" and inv: "pass_inv input st0"
    and x: "x \<in> graph_nodes input"
  shows "x \<in> set (search_starts (deal_with_root st0))
    \<or> (\<exists>p. p \<in> set (parents (deal_with_root st0) x))"
proof -
  from x obtain opts where e: "(x, opts) \<in> set input" "\<not> after_all opts"
    unfolding graph_nodes_def by blast
  from v e(1) have ok: "entry_ok opts" unfolding valid_constraints_def by fastforce
  show ?thesis
  proof (cases "before_all opts")
    case True
    with e(1) have "root st0 = Some x" using sched_root[OF v inv] by blast
    then show ?thesis by (simp add: deal_with_root_fields)
  next
    case False
    with e(2) have node: "is_node opts" by (simp add: is_node_def)
    show ?thesis
    proof (cases "run_after opts")
      case RA_None
      from inv have s: "search_starts st0
          = map fst (filter (\<lambda>e. is_node (snd e) \<and> run_after (snd e) = RA_None) input)"
        unfolding pass_inv_def by blast
      have xs: "x \<in> set (search_starts st0)" unfolding s using e(1) node RA_None by force
      show ?thesis
      proof (cases "root st0")
        case None
        with xs show ?thesis by (simp add: deal_with_root_fields)
      next
        case (Some r)
        with e(1) node RA_None have "r \<in> set (parents (deal_with_root st0) x)"
          unfolding sched_parents[OF inv] by blast
        then show ?thesis by blast
      qed
    next
      case (RA_Function p)
      with e(1) node have "p \<in> set (parents (deal_with_root st0) x)"
        unfolding sched_parents[OF inv] by force
      then show ?thesis by blast
    next
      case (RA_Iterable ps)
      with ok have "ps \<noteq> []" unfolding entry_ok_def by simp
      then have "hd ps \<in> set ps" by simp
      with e(1) node RA_Iterable have "hd ps \<in> set (parents (deal_with_root st0) x)"
        unfolding sched_parents[OF inv] by force
      then show ?thesis by blast
    next
      case (RA_Other t)
      with ok show ?thesis unfolding entry_ok_def by blast
    qed
  qed
qed

lemma sched_acyclic:
  assumes v: "valid_constraints input" and inv: "pass_inv input st0"
    and a: "acyclic (run_after_edges input)"
  shows "acyclic {(p, c). p \<in> set (parents (deal_with_root st0) c)}"
proof (cases "root st0")
  case None
  have "{(p, c). p \<in> set (parents (deal_with_root st0) c)} \<subseteq> run_after_edges input"
    unfolding sched_parents[OF inv] run_after_edges_def using None by auto
  with a show ?thesis by (rule acyclic_subset)
next
  case (Some r)
  then obtain po where po: "(r, po) \<in> set input" "before_all po"
    using sched_root[OF v inv] by blast
  from v have di: "distinct (map fst input)" unfolding valid_constraints_def by blast
  from v po have ra: "run_after po = RA_None"
    unfolding valid_constraints_def entry_ok_def by fastforce
  let ?B = "{(p, c). p = r
      \<and> (\<exists>opts. (c, opts) \<in> set input \<and> is_node opts \<and> run_after opts = RA_None)}"
  have sub: "{(p, c). p \<in> set (parents (deal_with_root st0) c)} \<subseteq> run_after_edges input \<union> ?B"
    unfolding sched_parents[OF inv] run_after_edges_def using Some by auto
  have "r \<notin> Range (run_after_edges input \<union> ?B)"
  proof
    assume "r \<in> Range (run_after_edges input \<union> ?B)"
    then obtain p where "(p, r) \<in> run_after_edges input \<or> (p, r) \<in> ?B" by auto
    then show False
    proof
      assume "(p, r) \<in> run_after_edges input"
      then obtain opts where "(r, opts) \<in> set input" "p \<in> set (declared_parents (run_after opts))"
        unfolding run_after_edges_def by blast
      with unique_entry[OF di po(1) this(1)] ra show False by simp
    next
      assume "(p, r) \<in> ?B"
      then obtain opts where "(r, opts) \<in> set input" "is_node opts" by blast
      with unique_entry[OF di po(1) this(1)] po(2) show False by (simp add: is_node_def)
    qed
  qed
  then have "acyclic (run_after_edges input \<union> ?B)"
    by (intro acyclic_add_source[OF a]) auto
  then show ?thesis using sub by (rule acyclic_subset)
qed

subsection \<open>The schedule\<close>

text \<open>
  Every graph node is reached from a start point, so the search blackens all of them;
  the grouping pass then returns them in stages.
\<close>

lemma reachable_black:
  assumes fin: "finite (edges ch)" and acy: "acyclic (edges ch)"
    and cb: "closed_black ch s"
    and starts: "\<forall>x \<in> set starts. map_of s x = Some BLACK"
    and sp: "\<forall>x \<in> D. x \<in> set starts \<or> (\<exists>p \<in> D. x \<in> set (ch p))"
  shows "x \<in> D \<Longrightarrow> map_of s x = Some BLACK"
proof -
  have w: "wf (edges ch)" by (rule finite_acyclic_wf[OF fin acy])
  show "x \<in> D \<Longrightarrow> map_of s x = Some BLACK"
  proof (induction x rule: wf_induct_rule[OF w])
    case (1 x)
    from sp "1.prems" consider "x \<in> set starts" | p where "p \<in> D" "x \<in> set (ch p)" by blast
    then show ?case
    proof cases
      case 1
      with starts show ?thesis by blast
    next
      case 2
      then have "(p, x) \<in> edges ch" by (simp add: edges_def)
      from "1.IH"[OF this 2(1)] have "map_of s p = Some BLACK" .
      with cb 2(2) show ?thesis unfolding closed_black_def by blast
    qed
  qed
qed

lemma scheduler_groups:
  assumes v: "valid_constraints input" and it: "\<forall>xs. set (it xs) = set xs"
    and a: "acyclic (run_after_edges input)"
  shows "\<exists>st0 pgs. first_pass it sched_init input = Inr st0 \<and> pass_inv input st0
     \<and> parallel_groups_of_callbacks it input
         = Some (Inr (case last_cb st0 of None \<Rightarrow> pgs | Some l \<Rightarrow> pgs @ [[l]]))
     \<and> staged (\<lambda>c. it (parents (deal_with_root st0) c)) pgs
     \<and> distinct (concat pgs) \<and> set (concat pgs) = graph_nodes input \<and> [] \<notin> set pgs"
proof -
  from first_pass_valid[OF v it] obtain st0 where
    fp: "first_pass it sched_init input = Inr st0" and inv: "pass_inv input st0" by blast
  let ?st = "deal_with_root st0"
  let ?ch = "\<lambda>c. it (children ?st c)"
  let ?pa = "\<lambda>c. it (parents ?st c)"
  let ?D = "graph_nodes input"
  have sym: "\<forall>c p. p \<in> set (?pa c) \<longleftrightarrow> c \<in> set (?ch p)"
    using it sched_sym[OF inv] by simp
  have ed: "edges ?ch = {(p, c). p \<in> set (parents ?st c)}"
    unfolding edges_def using it sched_sym[OF inv] by simp
  have acy: "acyclic (edges ?ch)" unfolding ed by (rule sched_acyclic[OF v inv a])
  have dom: "dom (map_of (searched ?st)) = ?D"
    using sched_searched[OF inv] by (auto split: if_splits)
  have chD: "\<forall>x. set (?ch x) \<subseteq> ?D"
  proof (intro allI subsetI)
    fix x y assume "y \<in> set (?ch x)"
    with sym have "x \<in> set (parents ?st y)" using it by simp
    from sched_parents_in_nodes(2)[OF v inv this] show "y \<in> ?D" .
  qed
  have paD: "\<forall>x. set (?pa x) \<subseteq> ?D"
  proof (intro allI subsetI)
    fix x y assume "y \<in> set (?pa x)"
    then have "y \<in> set (parents ?st x)" using it by simp
    from sched_parents_in_nodes(1)[OF v inv this] show "y \<in> ?D" .
  qed
  have stD: "set (search_starts ?st) \<subseteq> ?D" by (rule sched_starts[OF v inv])
  have white: "\<forall>x. map_of (searched ?st) x \<noteq> Some BLACK \<and> map_of (searched ?st) x \<noteq> Some GRAY"
    using sched_searched[OF inv] by simp
  have si: "starts_inv ?ch (searched ?st) []"
    unfolding starts_inv_def closed_black_def using white by simp
  from DFS_starts_correct[OF acy _ _ si, of "search_starts ?st"] chD stD dom
  obtain s' groups' where
    ds: "DFS_starts ?ch (searched ?st) [] (search_starts ?st) = Inr (s', groups')"
    and si': "starts_inv ?ch s' groups'"
    and dom': "dom (map_of s') = ?D"
    and sb: "\<forall>x \<in> set (search_starts ?st). map_of s' x = Some BLACK"
    by auto
  from si' have cb': "closed_black ?ch s'"
    and bl': "{x. map_of s' x = Some BLACK} = set (concat groups')"
    and di': "distinct (concat groups')" and tp': "topo ?ch (concat (rev groups'))"
    and ne': "[] \<notin> set groups'"
    unfolding starts_inv_def by blast+
  have finD: "finite ?D"
  proof (rule finite_subset)
    show "?D \<subseteq> fst ` set input" unfolding graph_nodes_def by force
  qed simp
  have "edges ?ch \<subseteq> ?D \<times> ?D"
    unfolding ed using sched_parents_in_nodes(1,2)[OF v inv] by blast
  then have fin: "finite (edges ?ch)" using finD by (meson finite_SigmaI finite_subset)
  have sp: "\<forall>x \<in> ?D. x \<in> set (search_starts ?st) \<or> (\<exists>p \<in> ?D. x \<in> set (?ch p))"
  proof
    fix x assume "x \<in> ?D"
    from sched_start_or_parent[OF v inv this]
    show "x \<in> set (search_starts ?st) \<or> (\<exists>p \<in> ?D. x \<in> set (?ch p))"
    proof
      assume "x \<in> set (search_starts ?st)"
      then show ?thesis by blast
    next
      assume "\<exists>p. p \<in> set (parents ?st x)"
      then obtain p where p: "p \<in> set (parents ?st x)" by blast
      from sched_parents_in_nodes(1)[OF v inv p] have "p \<in> ?D" .
      moreover from p have "x \<in> set (?ch p)" using sym it by simp
      ultimately show ?thesis by blast
    qed
  qed
  have allb: "\<forall>x \<in> ?D. map_of s' x = Some BLACK"
    using reachable_black[OF fin acy cb' sb sp] by blast
  have black: "\<forall>x. map_of s' x = Some BLACK \<longleftrightarrow> x \<in> ?D"
    using allb dom' by auto
  have cg: "set (concat groups') = ?D" using bl' black by auto
  have gi: "group_inv ?ch ?pa s' groups'"
    unfolding group_inv_def using ne' di' tp' black cg paD dom' by simp
  from grouping_correct[OF sym gi, of "[]"] obtain pgs where
    g: "grouping ?pa s' groups' [] = Some (Inr pgs)" and st: "staged ?pa pgs"
    and ms: "mset (concat pgs) = mset (concat groups')" and ne: "[] \<notin> set pgs"
    by auto
  have "distinct (concat pgs)" using mset_eq_imp_distinct_iff[OF ms] di' by simp
  moreover have "set (concat pgs) = ?D" using mset_eq_setD[OF ms] cg by simp
  moreover have "parallel_groups_of_callbacks it input
         = Some (Inr (case last_cb st0 of None \<Rightarrow> pgs | Some l \<Rightarrow> pgs @ [[l]]))"
    unfolding parallel_groups_of_callbacks_def
    using fp ds g by (simp add: Let_def deal_with_root_fields)
  ultimately show ?thesis using fp inv st ne by blast
qed

lemma in_concat_nth: "x \<in> set (concat gs) \<longleftrightarrow> (\<exists>i < length gs. x \<in> set (gs ! i))"
proof
  assume "x \<in> set (concat gs)"
  then obtain g where g: "g \<in> set gs" "x \<in> set g" by auto
  from g(1) obtain i where "i < length gs" "gs ! i = g" unfolding in_set_conv_nth by blast
  with g(2) show "\<exists>i < length gs. x \<in> set (gs ! i)" by blast
next
  assume "\<exists>i < length gs. x \<in> set (gs ! i)"
  then obtain i where "i < length gs" "x \<in> set (gs ! i)" by blast
  then show "x \<in> set (concat gs)" using nth_mem by fastforce
qed

lemma fst_set_iff: "x \<in> fst ` set xs \<longleftrightarrow> (\<exists>y. (x, y) \<in> set xs)"
  by force

text \<open>
  C2, the claim as stated: for every constraint set whose \<^verbatim>\<open>run_after\<close> edges form no cycle,
  every callback is in exactly one group and after all its declared parents. A callback
  is only scheduled when the search reaches it from a start point, and the callback
  declared \<^verbatim>\<open>after_all\<close> is kept out of the graph. In the input below callback 0 is
  declared \<^verbatim>\<open>after_all\<close> and callback 1 to run after callback 0: the only edge goes from 0
  to 1, there is no cycle, and the function returns the single group \<open>[0]\<close>; callback 1 is
  in no group.
\<close>

theorem C2_callback_after_the_last_is_in_no_group:
  "acyclic (run_after_edges
      [(0::nat, \<lparr> before_all = False, after_all = True, run_after = RA_None \<rparr>),
       (1, \<lparr> before_all = False, after_all = False, run_after = RA_Function 0 \<rparr>)])
   \<and> parallel_groups_of_callbacks (\<lambda>xs. xs)
      [(0::nat, \<lparr> before_all = False, after_all = True, run_after = RA_None \<rparr>),
       (1, \<lparr> before_all = False, after_all = False, run_after = RA_Function 0 \<rparr>)]
     = Some (Inr [[0]])"
proof
  show "acyclic (run_after_edges
      [(0::nat, \<lparr> before_all = False, after_all = True, run_after = RA_None \<rparr>),
       (1, \<lparr> before_all = False, after_all = False, run_after = RA_Function 0 \<rparr>)])"
    by (rule acyclicI_order[where f = "\<lambda>x. 2 - x"]) (auto simp: run_after_edges_def)
  show "parallel_groups_of_callbacks (\<lambda>xs. xs)
      [(0::nat, \<lparr> before_all = False, after_all = True, run_after = RA_None \<rparr>),
       (1, \<lparr> before_all = False, after_all = False, run_after = RA_Function 0 \<rparr>)]
     = Some (Inr [[0]])"
    by (simp add: parallel_groups_of_callbacks_def process_entry_def sched_init_def
        deal_with_root_def grouping.simps set_add_def)
qed

text \<open>
  C2, amended: for every valid constraint set (\<open>valid_constraints\<close>) whose \<^verbatim>\<open>run_after\<close>
  edges form no cycle, and for every order in which the sets of the function are
  visited, the function returns groups such that: every callback of the input is in
  exactly one group; the declared parents of a callback are all in strictly earlier
  groups; if a callback is declared \<^verbatim>\<open>before_all\<close>, it is in group 0 and every other
  callback without declared parents is in a group with index at least 1; if a callback
  is declared \<^verbatim>\<open>after_all\<close>, it is the sole member of the last group.
\<close>

theorem C2_schedule_of_valid_acyclic_constraints:
  assumes v: "valid_constraints input" and it: "\<forall>xs. set (it xs) = set xs"
    and a: "acyclic (run_after_edges input)"
  shows "\<exists>groups. parallel_groups_of_callbacks it input = Some (Inr groups)
     \<and> distinct (concat groups) \<and> set (concat groups) = fst ` set input
     \<and> (\<forall>i < length groups. \<forall>c \<in> set (groups ! i). \<forall>opts p.
           (c, opts) \<in> set input \<and> p \<in> set (declared_parents (run_after opts))
           \<longrightarrow> (\<exists>j < i. p \<in> set (groups ! j)))
     \<and> (\<forall>r opts. (r, opts) \<in> set input \<and> before_all opts \<longrightarrow>
           groups \<noteq> [] \<and> r \<in> set (groups ! 0)
           \<and> (\<forall>c opts'. (c, opts') \<in> set input \<and> \<not> before_all opts'
                  \<and> declared_parents (run_after opts') = []
                \<longrightarrow> (\<exists>i. 1 \<le> i \<and> i < length groups \<and> c \<in> set (groups ! i))))
     \<and> (\<forall>l opts. (l, opts) \<in> set input \<and> after_all opts \<longrightarrow>
           groups \<noteq> [] \<and> List.last groups = [l])"
proof -
  from scheduler_groups[OF v it a] obtain st0 pgs where
    inv: "pass_inv input st0"
    and res: "parallel_groups_of_callbacks it input
         = Some (Inr (case last_cb st0 of None \<Rightarrow> pgs | Some l \<Rightarrow> pgs @ [[l]]))"
    and st: "staged (\<lambda>c. it (parents (deal_with_root st0) c)) pgs"
    and di: "distinct (concat pgs)" and se: "set (concat pgs) = graph_nodes input"
    and ne: "[] \<notin> set pgs"
    by blast
  let ?st = "deal_with_root st0"
  let ?pa = "\<lambda>c. it (parents ?st c)"
  define groups where "groups = (case last_cb st0 of None \<Rightarrow> pgs | Some l \<Rightarrow> pgs @ [[l]])"
  from v have dk: "distinct (map fst input)"
    and ok: "\<forall>e \<in> set input. entry_ok (snd e)"
    and a1: "length (filter (\<lambda>e. after_all (snd e)) input) \<le> 1"
    unfolding valid_constraints_def by blast+
  have pre: "\<And>i. i < length pgs \<Longrightarrow> groups ! i = pgs ! i"
    unfolding groups_def by (auto simp: nth_append split: option.splits)
  have gN: "last_cb st0 = None \<Longrightarrow> groups = pgs"
    and gS: "\<And>l. last_cb st0 = Some l \<Longrightarrow> groups = pgs @ [[l]]"
    unfolding groups_def by simp_all
  \<comment> \<open>the entry of a graph node is not declared \<open>after_all\<close>\<close>
  have node_entry: "\<And>c opts. c \<in> graph_nodes input \<Longrightarrow> (c, opts) \<in> set input \<Longrightarrow> \<not> after_all opts"
    unfolding graph_nodes_def using unique_entry[OF dk] by blast
  \<comment> \<open>the declared parents of a graph node are parents of the search, and graph nodes\<close>
  have declared: "\<And>c opts p. c \<in> graph_nodes input \<Longrightarrow> (c, opts) \<in> set input \<Longrightarrow>
      p \<in> set (declared_parents (run_after opts)) \<Longrightarrow> p \<in> set (?pa c) \<and> p \<in> graph_nodes input"
  proof -
    fix c opts p
    assume c: "c \<in> graph_nodes input" and e: "(c, opts) \<in> set input"
      and p: "p \<in> set (declared_parents (run_after opts))"
    from node_entry[OF c e] have na: "\<not> after_all opts" .
    from ok e have eo: "entry_ok opts" by fastforce
    have "\<not> before_all opts"
    proof
      assume "before_all opts"
      with eo have "run_after opts = RA_None" unfolding entry_ok_def by blast
      with p show False by simp
    qed
    with na have "is_node opts" by (simp add: is_node_def)
    with e p have pp: "p \<in> set (parents ?st c)" unfolding sched_parents[OF inv] by blast
    from sched_parents_in_nodes(1)[OF v inv pp] pp it
    show "p \<in> set (?pa c) \<and> p \<in> graph_nodes input" by simp
  qed
  \<comment> \<open>all callbacks: the graph nodes and the last one\<close>
  have all: "distinct (concat groups) \<and> set (concat groups) = fst ` set input"
  proof (cases "last_cb st0")
    case None
    have "\<And>x opts. (x, opts) \<in> set input \<Longrightarrow> \<not> after_all opts"
      using sched_last[OF v inv] None by auto
    then have "\<And>x. x \<in> fst ` set input \<longleftrightarrow> x \<in> graph_nodes input"
      unfolding graph_nodes_def fst_set_iff by blast
    then have "fst ` set input = graph_nodes input" by (rule set_eqI)
    with None di se show ?thesis by (simp add: gN)
  next
    case (Some l)
    then obtain lo where lo: "(l, lo) \<in> set input" "after_all lo"
      using sched_last[OF v inv] by blast
    have ln: "l \<notin> graph_nodes input" using node_entry[OF _ lo(1)] lo(2) by blast
    have "\<And>x opts. (x, opts) \<in> set input \<Longrightarrow> after_all opts \<Longrightarrow> x = l"
    proof -
      fix x opts assume "(x, opts) \<in> set input" "after_all opts"
      then have "last_cb st0 = Some x" using sched_last[OF v inv] by blast
      with Some show "x = l" by simp
    qed
    then have "\<And>x. x \<in> fst ` set input \<longleftrightarrow> x \<in> insert l (graph_nodes input)"
      unfolding graph_nodes_def fst_set_iff using lo by blast
    then have "fst ` set input = insert l (graph_nodes input)" by (rule set_eqI)
    with di se ln show ?thesis by (simp add: gS[OF Some])
  qed
  have earlier: "\<forall>i < length groups. \<forall>c \<in> set (groups ! i). \<forall>opts p.
           (c, opts) \<in> set input \<and> p \<in> set (declared_parents (run_after opts))
           \<longrightarrow> (\<exists>j < i. p \<in> set (groups ! j))"
  proof (intro allI impI ballI, elim conjE)
    fix i c opts p
    assume i: "i < length groups" and c: "c \<in> set (groups ! i)"
      and e: "(c, opts) \<in> set input" and p: "p \<in> set (declared_parents (run_after opts))"
    show "\<exists>j < i. p \<in> set (groups ! j)"
    proof (cases "i < length pgs")
      case True
      with c have ci: "c \<in> set (pgs ! i)" by (simp add: pre)
      with True have "c \<in> set (concat pgs)" unfolding in_concat_nth by blast
      with se have cn: "c \<in> graph_nodes input" by simp
      from declared[OF cn e p] se have "p \<in> set (?pa c)" "p \<in> set (concat pgs)" by simp_all
      from staged_earlier[OF st True ci this] obtain j where j: "j < i" "p \<in> set (pgs ! j)"
        by blast
      with True have "p \<in> set (groups ! j)" by (simp add: pre)
      with j(1) show ?thesis by blast
    next
      case False
      have "\<exists>l. last_cb st0 = Some l"
      proof (cases "last_cb st0")
        case None
        with i False show ?thesis by (simp add: gN)
      qed simp
      then obtain l where l: "last_cb st0 = Some l" by blast
      with i False have il: "i = length pgs" by (simp add: gS)
      with c l have "c = l" by (simp add: gS)
      with l obtain lo where lo: "(c, lo) \<in> set input" "after_all lo"
        using sched_last[OF v inv] by blast
      from unique_entry[OF dk e lo(1)] lo(2) have "after_all opts" by simp
      with ok e have "run_after opts = RA_None" unfolding entry_ok_def by fastforce
      with p show ?thesis by simp
    qed
  qed
  have first: "\<forall>r opts. (r, opts) \<in> set input \<and> before_all opts \<longrightarrow>
           groups \<noteq> [] \<and> r \<in> set (groups ! 0)
           \<and> (\<forall>c opts'. (c, opts') \<in> set input \<and> \<not> before_all opts'
                  \<and> declared_parents (run_after opts') = []
                \<longrightarrow> (\<exists>i. 1 \<le> i \<and> i < length groups \<and> c \<in> set (groups ! i)))"
  proof (intro allI impI, elim conjE)
    fix r opts
    assume e: "(r, opts) \<in> set input" and b: "before_all opts"
    then have root: "root st0 = Some r" using sched_root[OF v inv] by blast
    from ok e b have "\<not> after_all opts" unfolding entry_ok_def by fastforce
    with e have rn: "r \<in> graph_nodes input" unfolding graph_nodes_def by blast
    with se have "r \<in> set (concat pgs)" by simp
    then have pn: "pgs \<noteq> []" by auto
    then obtain g gs where pg: "pgs = g # gs" by (cases pgs) auto
    with ne have gne: "g \<noteq> []" by auto
    have only: "x = r" if x: "x \<in> set g" for x
    proof -
      from x pg have "x \<in> set (concat pgs)" by simp
      with se have xn: "x \<in> graph_nodes input" by simp
      from st pg x have "set (?pa x) \<inter> set (concat pgs) = {}" by simp
      then have i: "set (?pa x) \<inter> graph_nodes input = {}" unfolding se .
      have s: "set (?pa x) \<subseteq> graph_nodes input"
      proof
        fix y assume "y \<in> set (?pa x)"
        then have "y \<in> set (parents ?st x)" using it by simp
        from sched_parents_in_nodes(1)[OF v inv this] show "y \<in> graph_nodes input" .
      qed
      have "set (?pa x) = {}" using i inf.absorb1[OF s] by simp
      then have "\<not> (\<exists>p. p \<in> set (parents ?st x))" using it by simp
      with sched_start_or_parent[OF v inv xn] have "x \<in> set (search_starts ?st)" by blast
      with root show "x = r" by (simp add: deal_with_root_fields)
    qed
    from gne obtain x where "x \<in> set g" by (cases g) auto
    with only have rg: "r \<in> set g" by blast
    have g0: "groups ! 0 = g" using pre[of 0] pg by simp
    have zero: "\<exists>i. 1 \<le> i \<and> i < length groups \<and> c \<in> set (groups ! i)"
      if c: "(c, opts') \<in> set input" and nb: "\<not> before_all opts'" for c opts'
    proof -
      from c have "c \<in> fst ` set input" by force
      with all have "c \<in> set (concat groups)" by simp
      then obtain i where i: "i < length groups" "c \<in> set (groups ! i)"
        unfolding in_concat_nth by blast
      have "i \<noteq> 0"
      proof
        assume "i = 0"
        with i(2) g0 only have "c = r" by simp
        with unique_entry[OF dk c] e have "opts' = opts" by simp
        with nb b show False by simp
      qed
      with i show ?thesis by (intro exI[of _ i]) simp
    qed
    have gn: "groups \<noteq> []" using pn unfolding groups_def by (simp split: option.splits)
    from rg g0 have r0: "r \<in> set (groups ! 0)" by simp
    from gn r0 zero show "groups \<noteq> [] \<and> r \<in> set (groups ! 0)
           \<and> (\<forall>c opts'. (c, opts') \<in> set input \<and> \<not> before_all opts'
                  \<and> declared_parents (run_after opts') = []
                \<longrightarrow> (\<exists>i. 1 \<le> i \<and> i < length groups \<and> c \<in> set (groups ! i)))"
      by blast
  qed
  have final: "\<forall>l opts. (l, opts) \<in> set input \<and> after_all opts \<longrightarrow>
           groups \<noteq> [] \<and> List.last groups = [l]"
  proof (intro allI impI, elim conjE)
    fix l opts assume "(l, opts) \<in> set input" "after_all opts"
    then have "last_cb st0 = Some l" using sched_last[OF v inv] by blast
    then show "groups \<noteq> [] \<and> List.last groups = [l]" by (simp add: gS)
  qed
  from res have "parallel_groups_of_callbacks it input = Some (Inr groups)"
    unfolding groups_def .
  moreover from all have "distinct (concat groups)" "set (concat groups) = fst ` set input"
    by simp_all
  ultimately show ?thesis using earlier first final by (intro exI[of _ groups] conjI)
qed

lemma ex_constraints_valid: "valid_constraints ex_constraints"
  by (simp add: valid_constraints_def ex_constraints_def entry_ok_def)

lemma ex_constraints_acyclic: "acyclic (run_after_edges ex_constraints)"
  by (rule acyclicI_order[where f = "\<lambda>x. 10 - x"])
     (auto simp: run_after_edges_def ex_constraints_def)

lemma ex_constraints_groups:
  "parallel_groups_of_callbacks (\<lambda>xs. xs) ex_constraints
     = Some (Inr [[4], [1, 0], [2], [3], [5]])"
  by (simp add: ex_constraints_def parallel_groups_of_callbacks_def process_entry_def
      sched_init_def deal_with_root_def grouping.simps set_add_def DFS.simps Let_def)

theorem C2_witness:
  "valid_constraints ex_constraints \<and> (\<forall>xs::nat list. set ((\<lambda>xs. xs) xs) = set xs)
   \<and> acyclic (run_after_edges ex_constraints)
   \<and> (\<exists>groups. parallel_groups_of_callbacks (\<lambda>xs. xs) ex_constraints = Some (Inr groups)
     \<and> distinct (concat groups) \<and> set (concat groups) = fst ` set ex_constraints
     \<and> (\<forall>i < length groups. \<forall>c \<in> set (groups ! i). \<forall>opts p.
           (c, opts) \<in> set ex_constraints \<and> p \<in> set (declared_parents (run_after opts))
           \<longrightarrow> (\<exists>j < i. p \<in> set (groups ! j)))
     \<and> (\<forall>r opts. (r, opts) \<in> set ex_constraints \<and> before_all opts \<longrightarrow>
           groups \<noteq> [] \<and> r \<in> set (groups ! 0)
           \<and> (\<forall>c opts'. (c, opts') \<in> set ex_constraints \<and> \<not> before_all opts'
                  \<and> declared_parents (run_after opts') = []
                \<longrightarrow> (\<exists>i. 1 \<le> i \<and> i < length groups \<and> c \<in> set (groups ! i))))
     \<and> (\<forall>l opts. (l, opts) \<in> set ex_constraints \<and> after_all opts \<longrightarrow>
           groups \<noteq> [] \<and> List.last groups = [l]))"
proof -
  have it: "\<forall>xs::nat list. set ((\<lambda>xs. xs) xs) = set xs" by simp
  from ex_constraints_valid it ex_constraints_acyclic
    C2_schedule_of_valid_acyclic_constraints[OF ex_constraints_valid it ex_constraints_acyclic]
  show ?thesis by (intro conjI)
qed

text \<open>
  C3. The claim: every input whose \<^verbatim>\<open>run_after\<close> edges contain a cycle fails with the
  circular-dependency error, also when no member of the cycle is a zero-parent start
  point. The search only starts from \<^verbatim>\<open>search_starts\<close> (or the root), so a cycle that no
  start point reaches is never visited. At the input below callback 0 runs after
  callback 1 and callback 1 runs after callback 0; there is no start point, the loop
  over \<^verbatim>\<open>search_starts\<close> does nothing, and the function returns the empty list of groups
  instead of raising \<^verbatim>\<open>RuntimeError('Detect circle.')\<close>, whatever the iteration order \<open>it\<close>
  of the sets is.
\<close>

theorem C3_cycle_without_start_point_is_not_detected:
  "parallel_groups_of_callbacks it
     [(0::nat, \<lparr> before_all = False, after_all = False, run_after = RA_Function 1 \<rparr>),
      (1, \<lparr> before_all = False, after_all = False, run_after = RA_Function 0 \<rparr>)]
   = Some (Inr [])"
  by (simp add: parallel_groups_of_callbacks_def process_entry_def sched_init_def
      deal_with_root_def grouping.simps set_add_def)

text \<open>
  C4. The claim: a callback that combines \<^verbatim>\<open>after_all\<close> (RunLast) with a \<^verbatim>\<open>run_after\<close>
  declaration is a configuration conflict. The branch \<^verbatim>\<open>if after_all:\<close> tests
  \<^verbatim>\<open>before_all\<close> again, which is false there, where the branch \<^verbatim>\<open>if before_all:\<close> tests
  \<^verbatim>\<open>after_all or run_after\<close>; so \<^verbatim>\<open>'Conflict on after_all.'\<close> can never be raised. At the
  input below callback 1 is declared \<^verbatim>\<open>after_all\<close> and \<^verbatim>\<open>run_after\<close> callback 0: the
  function returns the groups \<open>[[0], [1]]\<close> and no error.
\<close>

theorem C4_after_all_with_run_after_is_accepted:
  "parallel_groups_of_callbacks (\<lambda>xs. xs)
     [(0::nat, \<lparr> before_all = False, after_all = False, run_after = RA_None \<rparr>),
      (1, \<lparr> before_all = False, after_all = True, run_after = RA_Function 0 \<rparr>)]
   = Some (Inr [[0], [1]])"
  by (simp add: parallel_groups_of_callbacks_def process_entry_def sched_init_def
      deal_with_root_def grouping.simps DFS.simps)

section \<open>Claims about the merger\<close>

text \<open>
  C7. Merging the results \<^verbatim>\<open>{a.b: 1, a.c: 2}\<close>: the two paths are touched in a fresh tree
  state, the results stored, and the merge yields \<^verbatim>\<open>{a: {b: 1, c: 2}}\<close>, one mapping for
  the shared prefix \<^verbatim>\<open>a\<close>.
\<close>

theorem C7_merge_of_nested_paths:
  "merge_paths [([''a'', ''b''], PInt 1), ([''a'', ''c''], PInt 2)]
   = PDict [(''a'', PDict [(''b'', PInt 1), (''c'', PInt 2)])]"
  by (simp add: merge_paths_def merge_output_of_callbacks_def TreeState_empty_def tree_true_def)

text \<open>
  C8. The claim: a node without children yields the value stored at it, whatever the
  value, and the accumulated value only when nothing was stored. The source returns
  \<^verbatim>\<open>child_value if child_value else ret\<close>, which tests the truth value of the stored value
  and not whether there is one. A callback on \<^verbatim>\<open>a\<close> that returns \<^verbatim>\<open>0\<close> is merged to
  \<^verbatim>\<open>{a: None}\<close>; and when the callback on \<^verbatim>\<open>a\<close> returns \<^verbatim>\<open>{b: 5}\<close> and the callback on the leaf
  \<^verbatim>\<open>a.b\<close> returns \<^verbatim>\<open>False\<close>, the leaf yields the accumulated \<^verbatim>\<open>5\<close>.
\<close>

theorem C8_false_leaf_value_is_replaced:
  "merge_paths [([''a''], PInt 0)] = PDict [(''a'', PNone)]
   \<and> merge_paths [([''a''], PDict [(''b'', PInt 5)]), ([''a'', ''b''], PBool False)]
       = PDict [(''a'', PDict [(''b'', PInt 5)])]"
  by (simp add: merge_paths_def merge_output_of_callbacks_def TreeState_empty_def tree_true_def)

section \<open>Claims about the selector\<close>

lemma enqueue_children_items:
  "enqueue_children st cs = Inr items
     \<Longrightarrow> items = map (\<lambda>(name, c). (c, child_state_of st name)) cs"
  by (induction cs arbitrary: items)
     (auto simp: getattr_state_def split: sum.splits option.splits if_splits)

lemma node_of_unfold:
  "node_of a s a' s' \<longleftrightarrow>
     (a' = a \<and> s' = s) \<or>
     (\<exists>(c, cs) \<in> set (map (\<lambda>(name, c). (c, child_state_of s name)) (bh_named_children a)).
        node_of c cs a' s')"
  by (subst node_of.simps) (auto; force)

lemma selected_from_Nil: "selected_from q rs [] = {}"
  by (simp add: selected_from_def)

lemma selected_from_append:
  "selected_from q rs (xs @ ys) = selected_from q rs xs \<union> selected_from q rs ys"
  by (auto simp: selected_from_def)

lemma selected_from_Cons:
  assumes "enqueue_children s (bh_named_children a) = Inr items"
  shows "selected_from q rs ((a, s) # queue) =
     (case fst (q (bh_path a)) of None \<Rightarrow> {}
      | Some cb \<Rightarrow> if present s \<or> rs = None then {(cb, a, s)} else {})
     \<union> selected_from q rs (queue @ items)"
proof -
  have u: "\<And>a' s'. node_of a s a' s' \<longleftrightarrow>
      (a' = a \<and> s' = s) \<or> (\<exists>(c, cs) \<in> set items. node_of c cs a' s')"
    using node_of_unfold[of a s] enqueue_children_items[OF assms] by simp
  show ?thesis
    unfolding selected_from_append
    by (auto simp: selected_from_def u split: option.splits)
qed

text \<open>
  The loop invariant: what the loop returns is what it had collected together with the
  admitted triples of all nodes below the entries still in the queue.
\<close>

lemma select_loop_set:
  "select_loop q rs queue ret = Inr out \<Longrightarrow> set out = set ret \<union> selected_from q rs queue"
proof (induction q rs queue ret arbitrary: out rule: select_loop.induct)
  case (1 query root_state ret)
  then show ?case by (simp add: selected_from_Nil)
next
  case (2 query root_state attr state queue ret)
  from "2.prems" obtain items where
    items: "enqueue_children state (bh_named_children attr) = Inr items"
    by (auto split: sum.splits)
  with "2.prems" have
    "select_loop query root_state (queue @ items)
       (case fst (query (bh_path attr)) of None \<Rightarrow> ret
        | Some callback \<Rightarrow> if present state \<or> root_state = None
                          then ret @ [(callback, attr, state)] else ret) = Inr out"
    by simp
  from "2.IH"[OF items this] show ?case
    unfolding selected_from_Cons[OF items]
    by (auto split: option.splits if_splits)
qed

text \<open>
  C5, the claim as stated: a triple is included exactly when a callback is registered at
  the node's path and the node's state is present or the node is the root; a non-root
  node with absent state is never included. The source tests \<^verbatim>\<open>state or root_state is
  None\<close>: the second disjunct does not ask whether the node is the root but whether the
  collection has no state at all. With no root state, the leaves \<^verbatim>\<open>a\<close> and \<^verbatim>\<open>b\<close> of the
  example, which are not the root and have no state, are both included.
\<close>

theorem C5_non_root_node_without_state_is_included:
  "select_callbacks_of ex_query ex_root None
     = Inr [(1, Attr [''a''] [], None), (2, Attr [''b''] [], None)]"
  by (simp add: select_callbacks_of_def ex_root_def ex_query_def)

text \<open>
  C5, amended: when the selection returns, a triple of a callback, a node and a state is
  included exactly when the node is a node of the collection's tree with that state, the
  callback is registered at the node's path, and the node's state is present or the root
  state of the collection is \<^verbatim>\<open>None\<close>.
\<close>

theorem C5_selection_condition:
  assumes "select_callbacks_of query root_attr root_state = Inr ret"
  shows "(callback, a, s) \<in> set ret \<longleftrightarrow>
           node_of root_attr root_state a s \<and> fst (query (bh_path a)) = Some callback
           \<and> (present s \<or> root_state = None)"
  using select_loop_set[OF assms[unfolded select_callbacks_of_def]]
  by (auto simp: selected_from_def)

theorem C5_witness:
  "select_callbacks_of ex_query ex_root None
     = Inr [(1, Attr [''a''] [], None), (2, Attr [''b''] [], None)]
   \<and> ((1, Attr [''a''] [], None)
          \<in> set [(1::nat, Attr [''a''] [], None::state option), (2, Attr [''b''] [], None)] \<longleftrightarrow>
        node_of ex_root None (Attr [''a''] []) None
        \<and> fst (ex_query (bh_path (Attr [''a''] []))) = Some 1
        \<and> (present None \<or> (None::state option) = None))"
proof -
  have s: "select_callbacks_of ex_query ex_root None
     = Inr [(1, Attr [''a''] [], None), (2, Attr [''b''] [], None)]"
    by (simp add: select_callbacks_of_def ex_root_def ex_query_def)
  from s C5_selection_condition[OF s, of 1 "Attr [''a''] []" None] show ?thesis
    by (rule conjI)
qed

text \<open>
  C6, the claim as stated: the selector runs once for each of the three collections,
  the resource identifier among them. The loop of the source goes over \<^verbatim>\<open>'attributes'\<close> and
  \<^verbatim>\<open>'relationships'\<close> only; \<^verbatim>\<open>'resource_id'\<close> gets the empty list from the loop over the
  missing names. For the resource whose identifier collection has callback 3 at its root
  the code returns no triple, where one run of the selector per collection returns one.
\<close>

theorem C6_resource_id_is_never_selected:
  "select_callbacks ex_id_resource ex_id_state
     = Inr [(''attributes'', []), (''relationships'', []), (''resource_id'', [])]
   \<and> select_callbacks_spec ex_id_resource ex_id_state
     = Inr [(''attributes'', []), (''relationships'', []),
            (''resource_id'', [(3, Attr [] [], Some (State True []))])]"
  by (simp add: select_defs select_callbacks_spec_def collection_of_def ex_id_resource_def
      ex_id_state_def)

text \<open>
  C6, amended: when \<^verbatim>\<open>select_callbacks\<close> returns, its result has exactly the three
  collection names as keys; the sequence of \<^verbatim>\<open>resource_id\<close> is empty; and for each of
  \<^verbatim>\<open>attributes\<close> and \<^verbatim>\<open>relationships\<close> the sequence is empty when the resource does not
  have the collection, and otherwise what one run of the selector gives for the
  collection's registry and schema root against the input state of that collection.
\<close>

theorem C6_selection_per_collection:
  assumes "select_callbacks r st = Inr ret"
  shows "set (map fst ret) = set COLLECTION_NAMES \<and> distinct (map fst ret)
    \<and> map_of ret ''resource_id'' = Some []
    \<and> (\<forall>key \<in> {''attributes'', ''relationships''}.
          case resource_key r key of
            None \<Rightarrow> map_of ret key = Some []
          | Some col \<Rightarrow>
              (\<exists>sel. select_callbacks_of (get_registered_callback_and_options col) (attr_obj col)
                        (state_key st key) = Inr sel
                    \<and> map_of ret key = Some sel))"
  using assms
  by (auto simp: select_callbacks_def COLLECTION_NAMES_def resource_key_def
      split: option.splits sum.splits)

theorem C6_witness:
  "select_callbacks ex_resource ex_state
     = Inr [(''attributes'', [(1, Attr [''a''] [], Some (State True [])),
                              (2, Attr [''b''] [], Some (State True []))]),
            (''relationships'', []), (''resource_id'', [])]
   \<and> map_of [(''attributes'', [(1::nat, Attr [''a''] [], Some (State True [])),
                                (2, Attr [''b''] [], Some (State True []))]),
              (''relationships'', []), (''resource_id'', [])] ''resource_id'' = Some []"
proof -
  have s: "select_callbacks ex_resource ex_state
     = Inr [(''attributes'', [(1, Attr [''a''] [], Some (State True [])),
                              (2, Attr [''b''] [], Some (State True []))]),
            (''relationships'', []), (''resource_id'', [])]"
    by (simp add: ex_defs select_defs)
  from s C6_selection_per_collection[OF s] show ?thesis by blast
qed

section \<open>Claims about the pipeline\<close>

text \<open>
  C9. If the input state that the state builder returns fails the validation of the
  context rule, \<^verbatim>\<open>run\<close> raises the RuntimeError of \<^verbatim>\<open>_build_input_state\<close>, and all that
  happened before is the call of the state builder and the validation: no selection, no
  gather, hence no callback invoked.
\<close>

theorem C9_invalid_input_aborts_before_selection:
  assumes "build_input_state p (resource p) = Inr ist"
    and "\<not> validate_input_state (context_rule p) ist"
  shows "run p = (Inl Input_state_not_valid, [Build_input_state, Validate_input_state])"
  using assms by (simp add: run_def)

theorem C9_witness:
  "build_input_state (ex_pipeline False) (resource (ex_pipeline False)) = Inr ex_state
   \<and> \<not> validate_input_state (context_rule (ex_pipeline False)) ex_state
   \<and> run (ex_pipeline False)
       = (Inl Input_state_not_valid, [Build_input_state, Validate_input_state])"
proof -
  have b: "build_input_state (ex_pipeline False) (resource (ex_pipeline False)) = Inr ex_state"
    by (simp add: ex_pipeline_def)
  have v: "\<not> validate_input_state (context_rule (ex_pipeline False)) ex_state"
    by (simp add: ex_pipeline_def ex_state_def validate_input_state_def default_validator_def)
  from b v C9_invalid_input_aborts_before_selection[OF b v] show ?thesis by simp
qed

lemma restrict_inter_dom: "m |` (A \<inter> dom m) = m |` A"
  by (rule ext) (auto simp: restrict_map_def)

lemma extract_kwargs_subset_code [code]:
  "extract_kwargs_subset f kwargs =
     (if list_all (\<lambda>p. snd p \<or> kwargs (fst p) \<noteq> None) (params f)
      then Inr (kwargs |` set (map fst (params f))) else Inl Missing_keys)"
  by (auto simp: extract_kwargs_subset_def Let_def restrict_inter_dom list_all_iff)

lemma async_call_no_args:
  "async_call f [] kwargs =
     (if set (map fst (filter (\<lambda>p. \<not> snd p) (params f))) \<subseteq> dom kwargs
      then (call f [] (kwargs |` set (map fst (params f))),
            [([], kwargs |` set (map fst (params f)))])
      else (Inl Missing_keys, []))"
  by (simp add: async_call_def extract_kwargs_subset_def Let_def restrict_inter_dom)

lemma snd_run_pending_Cons:
  "snd (run_pending im ((c, kwargs, path) # rest)) =
     map (\<lambda>(args, kw). (c, kw)) (snd (async_call (im c) [] kwargs)) @ snd (run_pending im rest)"
  by (simp split: prod.splits)

lemma run_pending_calls:
  "(cb, kw) \<in> set (snd (run_pending im pend)) \<Longrightarrow>
     \<exists>kwargs path. (cb, kwargs, path) \<in> set pend
        \<and> kw = kwargs |` set (map fst (params (im cb)))
        \<and> set (map fst (filter (\<lambda>p. \<not> snd p) (params (im cb)))) \<subseteq> dom kwargs"
proof (induction pend)
  case Nil
  then show ?case by simp
next
  case (Cons x pend)
  obtain c kwargs path where x: "x = (c, kwargs, path)" by (cases x)
  from Cons.prems
  have "(cb, kw) \<in> set (map (\<lambda>(args, kw). (c, kw)) (snd (async_call (im c) [] kwargs)))
      \<or> (cb, kw) \<in> set (snd (run_pending im pend))"
    unfolding x snd_run_pending_Cons by simp
  then consider
    (here) "(cb, kw) \<in> set (map (\<lambda>(args, kw). (c, kw)) (snd (async_call (im c) [] kwargs)))"
    | (there) "(cb, kw) \<in> set (snd (run_pending im pend))"
    by blast
  then show ?case
  proof cases
    case here
    then show ?thesis
      by (auto simp: x async_call_no_args split: if_splits)
  next
    case there
    from Cons.IH[OF there] show ?thesis by auto
  qed
qed

lemma invoke_callbacks_log:
  assumes "invoke_callbacks p ist = (res, log)"
    and "select_callbacks (resource p) ist = Inr name2selected"
  shows "log = [Select_callbacks,
      Gather (concat (map (\<lambda>x. snd (run_pending (impl p) (pending (context_rule p) (snd x))))
                name2selected))]"
  using assms
  by (auto simp: invoke_callbacks_def Let_def comp_def case_prod_beta split: option.splits)

lemma invoke_callbacks_calls:
  assumes "invoke_callbacks p ist = (res, log)" "Gather calls \<in> set log" "(cb, kw) \<in> set calls"
  shows "\<exists>a st. kw = callback_kwargs (context_rule p) a st |` set (map fst (params (impl p cb)))"
proof -
  from assms obtain name2selected where
    sel: "select_callbacks (resource p) ist = Inr name2selected"
    by (auto simp: invoke_callbacks_def split: sum.splits)
  from invoke_callbacks_log[OF assms(1) sel] assms(2)
  have "calls = concat (map (\<lambda>x. snd (run_pending (impl p) (pending (context_rule p) (snd x))))
                  name2selected)"
    by auto
  with assms(3) obtain x where "x \<in> set name2selected"
    and "(cb, kw) \<in> set (snd (run_pending (impl p) (pending (context_rule p) (snd x))))"
    by auto
  from run_pending_calls[OF this(2)] show ?thesis
    by (auto simp: pending_def)
qed

text \<open>
  C10. Called without positional arguments, \<^verbatim>\<open>async_call\<close> raises \<^verbatim>\<open>RuntimeError('Missing
  keys')\<close> and makes no call when a parameter without default is not among the keyword
  arguments; otherwise it calls the target once, with the keyword arguments restricted
  to the names of the target's parameters. In a pipeline run every callback that a
  gather reaches has therefore received the keyword context of its node restricted to
  the parameters of its signature.
\<close>

theorem C10_async_call_passes_declared_keywords:
  "async_call f [] kwargs =
     (if set (map fst (filter (\<lambda>p. \<not> snd p) (params f))) \<subseteq> dom kwargs
      then (call f [] (kwargs |` set (map fst (params f))),
            [([], kwargs |` set (map fst (params f)))])
      else (Inl Missing_keys, []))
   \<and> (\<forall>res log calls cb kw.
         invoke_callbacks p ist = (res, log) \<and> Gather calls \<in> set log \<and> (cb, kw) \<in> set calls
         \<longrightarrow> (\<exists>a st. kw = callback_kwargs (context_rule p) a st
                           |` set (map fst (params (impl p cb)))))"
  using async_call_no_args[of f kwargs] invoke_callbacks_calls[of p ist] by blast

theorem C10_witness:
  "async_call (ex_impl 1) [] [''state'' \<mapsto> CVal PNone, ''other'' \<mapsto> CVal PNone]
     = (Inr (PInt 1), [([], [''state'' \<mapsto> CVal PNone])])
   \<and> async_call (ex_impl 1) [] [''other'' \<mapsto> CVal PNone] = (Inl Missing_keys, [])
   \<and> invoke_callbacks (ex_pipeline True) ex_state
       = (Inr [(''attributes'', PDict [(''a'', PInt 1), (''b'', PInt 2)]),
               (''relationships'', PDict []), (''resource_id'', PDict [])],
          [Select_callbacks,
           Gather [(1, [''state'' \<mapsto> CState (Some (State True []))]),
                   (2, [''state'' \<mapsto> CState (Some (State True []))])]])
   \<and> (\<exists>a st. [''state'' \<mapsto> CState (Some (State True []))]
         = callback_kwargs (context_rule (ex_pipeline True)) a st
             |` set (map fst (params (impl (ex_pipeline True) 1))))"
proof -
  note c = C10_async_call_passes_declared_keywords[of _ _ "ex_pipeline True" ex_state]
  have 1: "async_call (ex_impl 1) [] [''state'' \<mapsto> CVal PNone, ''other'' \<mapsto> CVal PNone]
     = (Inr (PInt 1), [([], [''state'' \<mapsto> CVal PNone])])"
    using c[of "ex_impl 1" "[''state'' \<mapsto> CVal PNone, ''other'' \<mapsto> CVal PNone]"]
    by (simp add: ex_impl_def restrict_map_def fun_eq_iff)
  have 2: "async_call (ex_impl 1) [] [''other'' \<mapsto> CVal PNone] = (Inl Missing_keys, [])"
    using c[of "ex_impl 1" "[''other'' \<mapsto> CVal PNone]"]
    by (simp add: ex_impl_def)
  note 3 = ex_invoke_callbacks[of True]
  from c[of "ex_impl 1" Map.empty] 3
  have 4: "\<exists>a st. [''state'' \<mapsto> CState (Some (State True []))]
         = callback_kwargs (context_rule (ex_pipeline True)) a st
             |` set (map fst (params (impl (ex_pipeline True) 1)))"
    by fastforce
  from 1 2 3 4 show ?thesis by blast
qed

lemma run_pending_reached:
  "snd (run_pending (impl p) (pending (context_rule p) sel)) = reached p sel"
  by (induction sel)
     (auto simp: pending_def reached_def async_call_no_args split: prod.splits)

text \<open>
  C1, the claim as stated: the Invoke phase gives the callback set of a collection, with
  its ordering constraints, to the scheduler and runs the resulting groups one after the
  other. \<^verbatim>\<open>_invoke_callbacks\<close> never calls \<^verbatim>\<open>parallel_groups_of_callbacks\<close>: the selection drops
  the options, and all coroutines of all collections go into one gather. In the example
  callback 1 is declared to run after callback 2, and the scheduler puts callback 2 in
  the first group and callback 1 in the second; the run awaits one gather that starts
  callback 1 and then callback 2.
\<close>

theorem C1_invoke_does_not_follow_the_schedule:
  "select_callbacks ex_resource ex_state
     = Inr [(''attributes'', [(1, Attr [''a''] [], Some (State True [])),
                              (2, Attr [''b''] [], Some (State True []))]),
            (''relationships'', []), (''resource_id'', [])]
   \<and> parallel_groups_of_callbacks (\<lambda>xs. xs)
       (constraints_of ex_query [(1, Attr [''a''] [], Some (State True [])),
                                 (2, Attr [''b''] [], Some (State True []))])
     = Some (Inr [[2], [1]])
   \<and> gathers (snd (invoke_callbacks (ex_pipeline True) ex_state)) = [[1, 2]]"
proof -
  have 1: "select_callbacks ex_resource ex_state
     = Inr [(''attributes'', [(1, Attr [''a''] [], Some (State True [])),
                              (2, Attr [''b''] [], Some (State True []))]),
            (''relationships'', []), (''resource_id'', [])]"
    by (simp add: ex_defs select_defs)
  have 2: "parallel_groups_of_callbacks (\<lambda>xs. xs)
       (constraints_of ex_query [(1, Attr [''a''] [], Some (State True [])),
                                 (2, Attr [''b''] [], Some (State True []))])
     = Some (Inr [[2], [1]])"
    by (simp add: constraints_of_def ex_query_def parallel_groups_of_callbacks_def
        process_entry_def sched_init_def deal_with_root_def grouping.simps DFS.simps set_add_def)
  have 3: "gathers (snd (invoke_callbacks (ex_pipeline True) ex_state)) = [[1, 2]]"
    by (simp add: ex_invoke_callbacks gathers_def)
  from 1 2 3 show ?thesis by blast
qed

text \<open>
  C1, amended: in a run whose selection returns, the Invoke phase awaits exactly one
  gather; it holds, collection after collection and in selection order within a
  collection, the calls of the selected callbacks that reach their target. The scheduler
  and the declared ordering constraints take no part in it.
\<close>

theorem C1_invoke_awaits_one_gather:
  assumes "select_callbacks (resource p) ist = Inr name2selected"
  shows "snd (invoke_callbacks p ist)
     = [Select_callbacks, Gather (concat (map (\<lambda>(name, sel). reached p sel) name2selected))]"
  using assms
  by (auto simp: invoke_callbacks_def Let_def comp_def case_prod_unfold run_pending_reached
      split: option.splits)

theorem C1_witness:
  "select_callbacks (resource (ex_pipeline True)) ex_state
     = Inr [(''attributes'', [(1, Attr [''a''] [], Some (State True [])),
                              (2, Attr [''b''] [], Some (State True []))]),
            (''relationships'', []), (''resource_id'', [])]
   \<and> snd (invoke_callbacks (ex_pipeline True) ex_state)
     = [Select_callbacks,
        Gather (concat (map (\<lambda>(name, sel). reached (ex_pipeline True) sel)
          [(''attributes'', [(1, Attr [''a''] [], Some (State True [])),
                             (2, Attr [''b''] [], Some (State True []))]),
           (''relationships'', []), (''resource_id'', [])]))]"
proof -
  have s: "select_callbacks (resource (ex_pipeline True)) ex_state
     = Inr [(''attributes'', [(1, Attr [''a''] [], Some (State True [])),
                              (2, Attr [''b''] [], Some (State True []))]),
            (''relationships'', []), (''resource_id'', [])]"
    by (simp add: ex_defs select_defs)
  from s C1_invoke_awaits_one_gather[OF s] show ?thesis by (rule conjI)
qed

end
